theory Spec2Isabelle
  imports Main "HOL-Library.AList"
begin

section \<open>Exceptions and text\<close>

text \<open>
  The exceptions of the program, as values. A \<open>ValueError\<close> carries its message: the
  program tells "phone not found" from "phone malformed" by the message only. The
  messages of exceptions raised inside the datetime library are representative texts;
  no statement below depends on them.

  The text of a name or of a phone is a \<open>string\<close>: a list of 8-bit characters, each
  read as the code point of the same number (U+0000 to U+00FF). The text of a birthday is
  a list of code points of any size (\<open>utext\<close>, with the parser of dates), since the
  parser treats the decimal digits beyond U+00FF in a way of its own.
\<close>

datatype exn = ValueError string | KeyError string | OverflowError

definition is_ValueError :: "exn + 'a \<Rightarrow> bool" where
  "is_ValueError r = (case r of Inl (ValueError m) \<Rightarrow> True | _ \<Rightarrow> False)"

text \<open>
  \<open>str.isdigit\<close> on one character: true for the ASCII digits and, in this range of code
  points, for SUPERSCRIPT TWO (U+00B2), SUPERSCRIPT THREE (U+00B3) and SUPERSCRIPT ONE
  (U+00B9), whose Unicode numeric type is "digit".
\<close>

definition isdigit_char :: "char \<Rightarrow> bool" where
  "isdigit_char c =
     (let n = (of_char c :: nat)
      in (48 \<le> n \<and> n \<le> 57) \<or> n = 178 \<or> n = 179 \<or> n = 185)"

text \<open>\<open>str.isdigit\<close>: every character is a digit and there is at least one character.\<close>

definition isdigit :: "string \<Rightarrow> bool" where
  "isdigit s = (s \<noteq> [] \<and> list_all isdigit_char s)"

text \<open>The characters \<open>0\<close> to \<open>9\<close>: the decimal digits of the specification.\<close>

definition decimal_char :: "char \<Rightarrow> bool" where
  "decimal_char c = (let n = (of_char c :: nat) in 48 \<le> n \<and> n \<le> 57)"


section \<open>Fields\<close>

text \<open>
  \<open>class Field\<close>: an object with one attribute \<open>value\<close>. \<open>Name\<close> adds nothing;
  \<open>Phone\<close> validates in its constructor.
\<close>

datatype 'a Field = Field (field_value: 'a)

definition Name :: "string \<Rightarrow> string Field" where
  "Name v = Field v"

definition Phone :: "string \<Rightarrow> exn + string Field" where
  "Phone v =
     (if length v \<noteq> 10 \<or> \<not> isdigit v
      then Inl (ValueError ''The number must be 10 digits long'')
      else Inr (Field v))"

text \<open>\<open>Field.__str__\<close> on a field that holds a text.\<close>

definition str_Field :: "string Field \<Rightarrow> string" where
  "str_Field f = field_value f"


section \<open>Calendar dates\<close>

text \<open>
  The \<open>date\<close> class of the datetime library: a year, a month and a day, with the
  library's helper functions on proleptic Gregorian ordinals (1 January of year 1 is
  day 1). Python's \<open>//\<close> and \<open>%\<close> on integers are \<open>div\<close> and \<open>mod\<close> on \<open>int\<close>.
\<close>

datatype date = Date (year: int) (month: int) (day: int)

definition MINYEAR :: int where "MINYEAR = 1"
definition MAXYEAR :: int where "MAXYEAR = 9999"
definition MAXORDINAL :: int where "MAXORDINAL = 3652059"

definition DAYS_IN_MONTH :: "int list" where
  "DAYS_IN_MONTH = [-1, 31, 28, 31, 30, 31, 30, 31, 31, 30, 31, 30, 31]"

definition DAYS_BEFORE_MONTH :: "int list" where
  "DAYS_BEFORE_MONTH = [-1, 0, 31, 59, 90, 120, 151, 181, 212, 243, 273, 304, 334]"

definition is_leap :: "int \<Rightarrow> bool" where
  "is_leap y = (y mod 4 = 0 \<and> (y mod 100 \<noteq> 0 \<or> y mod 400 = 0))"

definition days_before_year :: "int \<Rightarrow> int" where
  "days_before_year yr = (let y = yr - 1 in y * 365 + y div 4 - y div 100 + y div 400)"

definition days_in_month :: "int \<Rightarrow> int \<Rightarrow> int" where
  "days_in_month y m = (if m = 2 \<and> is_leap y then 29 else DAYS_IN_MONTH ! nat m)"

definition days_before_month :: "int \<Rightarrow> int \<Rightarrow> int" where
  "days_before_month y m =
     DAYS_BEFORE_MONTH ! nat m + (if m > 2 \<and> is_leap y then 1 else 0)"

definition ymd2ord :: "int \<Rightarrow> int \<Rightarrow> int \<Rightarrow> int" where
  "ymd2ord y m d = days_before_year y + days_before_month y m + d"

definition DI400Y :: int where "DI400Y = days_before_year 401"
definition DI100Y :: int where "DI100Y = days_before_year 101"
definition DI4Y :: int where "DI4Y = days_before_year 5"

text \<open>
  The second half of \<open>_ord2ymd\<close>: month and day from the offset \<open>n\<close> of a day within
  its year, by an estimate of the month that is exact or one too large.
\<close>

definition month_day_of :: "bool \<Rightarrow> int \<Rightarrow> int \<times> int" where
  "month_day_of leapyear n =
     (let month = (n + 50) div 32;
          preceding = DAYS_BEFORE_MONTH ! nat month + (if month > 2 \<and> leapyear then 1 else 0)
      in if preceding > n
         then (let month' = month - 1;
                   preceding' = preceding
                     - (DAYS_IN_MONTH ! nat month' + (if month' = 2 \<and> leapyear then 1 else 0))
               in (month', n - preceding' + 1))
         else (month, n - preceding + 1))"

definition ord2ymd :: "int \<Rightarrow> int \<times> int \<times> int" where
  "ord2ymd n0 =
     (let n = n0 - 1;
          n400 = n div DI400Y; na = n mod DI400Y;
          n100 = na div DI100Y; nb = na mod DI100Y;
          n4 = nb div DI4Y; nc = nb mod DI4Y;
          n1 = nc div 365; nd = nc mod 365;
          yr = n400 * 400 + 1 + (n100 * 100 + n4 * 4 + n1)
      in if n1 = 4 \<or> n100 = 4 then (yr - 1, 12, 31)
         else (let leapyear = (n1 = 3 \<and> (n4 \<noteq> 24 \<or> n100 = 3));
                   (m, d) = month_day_of leapyear nd
               in (yr, m, d)))"

text \<open>
  The constructor \<open>date(year, month, day)\<close> with the library's \<open>_check_date_fields\<close>;
  \<open>datetime(year=\<dots>, month=\<dots>, day=\<dots>).date()\<close> makes the same checks and gives the same
  date.
\<close>

definition check_date_fields :: "int \<Rightarrow> int \<Rightarrow> int \<Rightarrow> exn + date" where
  "check_date_fields y m d =
     (if \<not> (MINYEAR \<le> y \<and> y \<le> MAXYEAR) then Inl (ValueError ''year is out of range'')
      else if \<not> (1 \<le> m \<and> m \<le> 12) then Inl (ValueError ''month must be in 1..12'')
      else if \<not> (1 \<le> d \<and> d \<le> days_in_month y m)
        then Inl (ValueError ''day is out of range for month'')
      else Inr (Date y m d))"

definition toordinal :: "date \<Rightarrow> int" where
  "toordinal dt = ymd2ord (year dt) (month dt) (day dt)"

definition fromordinal :: "int \<Rightarrow> exn + date" where
  "fromordinal n = (case ord2ymd n of (y, m, d) \<Rightarrow> check_date_fields y m d)"

text \<open>\<open>date.weekday()\<close>: Monday is 0, Saturday 5, Sunday 6.\<close>

definition weekday :: "date \<Rightarrow> int" where
  "weekday dt = (toordinal dt + 6) mod 7"

text \<open>Dates compare as the triples (year, month, day).\<close>

definition date_lt :: "date \<Rightarrow> date \<Rightarrow> bool" where
  "date_lt a b =
     (year a < year b \<or> (year a = year b \<and>
        (month a < month b \<or> (month a = month b \<and> day a < day b))))"

definition date_le :: "date \<Rightarrow> date \<Rightarrow> bool" where
  "date_le a b = (date_lt a b \<or> a = b)"

text \<open>
  \<open>timedelta(days)\<close> keeps the number of days and refuses a magnitude above 999999999;
  \<open>date + timedelta\<close> goes through the ordinal and refuses a result outside the range of
  dates.
\<close>

definition timedelta :: "int \<Rightarrow> exn + int" where
  "timedelta days = (if \<bar>days\<bar> > 999999999 then Inl OverflowError else Inr days)"

definition date_add :: "date \<Rightarrow> int \<Rightarrow> exn + date" where
  "date_add dt days =
     (let o' = toordinal dt + days
      in if 0 < o' \<and> o' \<le> MAXORDINAL then fromordinal o' else Inl OverflowError)"

text \<open>The dates that the constructor accepts.\<close>

definition valid_date :: "date \<Rightarrow> bool" where
  "valid_date dt =
     (MINYEAR \<le> year dt \<and> year dt \<le> MAXYEAR \<and> 1 \<le> month dt \<and> month dt \<le> 12 \<and>
      1 \<le> day dt \<and> day dt \<le> days_in_month (year dt) (month dt))"


subsection \<open>Writing dates\<close>

definition digit_char :: "nat \<Rightarrow> char" where
  "digit_char n = ''0123456789'' ! n"

definition dec2 :: "nat \<Rightarrow> string" where
  "dec2 n = [digit_char (n div 10 mod 10), digit_char (n mod 10)]"

text \<open>A number below 10000 in decimal, without leading zeros.\<close>

definition decimal :: "nat \<Rightarrow> string" where
  "decimal n =
     (if n < 10 then [digit_char n]
      else if n < 100 then [digit_char (n div 10), digit_char (n mod 10)]
      else if n < 1000
        then [digit_char (n div 100), digit_char (n div 10 mod 10), digit_char (n mod 10)]
      else [digit_char (n div 1000 mod 10), digit_char (n div 100 mod 10),
            digit_char (n div 10 mod 10), digit_char (n mod 10)])"

text \<open>
  \<open>strftime('%d.%m.%Y')\<close>, which is the work of the C library: day and month with two
  digits, and the year as glibc writes it, without leading zeros (the first of January
  of the year 999 is \<open>01.01.999\<close>).
\<close>

definition strftime_dmY :: "date \<Rightarrow> string" where
  "strftime_dmY dt =
     dec2 (nat (day dt)) @ ''.'' @ dec2 (nat (month dt)) @ ''.'' @ decimal (nat (year dt))"


subsection \<open>Reading dates\<close>

text \<open>
  The parser tells the ASCII digits from the other decimal digits of Unicode, so the
  text that it reads is a list of code points of any size. The code points 48 to 57
  are the characters \<open>0\<close> to \<open>9\<close>, 46 is the dot and 32 the blank.
\<close>

type_synonym utext = "nat list"

definition utext_of :: "string \<Rightarrow> utext" where
  "utext_of s = map of_char s"

text \<open>
  The decimal digits of Unicode (category Nd) come in runs of ten, from a zero to a nine.
  These are the zeros of Unicode 14.0, the version of CPython 3.11: 66 runs, 660 digits.
\<close>

definition decimal_zeros :: "nat list" where
  "decimal_zeros =
     [48, 1632, 1776, 1984, 2406, 2534, 2662, 2790,
      2918, 3046, 3174, 3302, 3430, 3558, 3664, 3792,
      3872, 4160, 4240, 6112, 6160, 6470, 6608, 6784,
      6800, 6992, 7088, 7232, 7248, 42528, 43216, 43264,
      43472, 43504, 43600, 44016, 65296, 66720, 68912, 69734,
      69872, 69942, 70096, 70384, 70736, 70864, 71248, 71360,
      71472, 71904, 72016, 72784, 73040, 73120, 92768, 92864,
      93008, 120782, 120792, 120802, 120812, 120822, 123200, 123632,
      125264, 130032]"

text \<open>The value of a decimal digit, and \<open>None\<close> for any other character.\<close>

definition decimal_value :: "nat \<Rightarrow> nat option" where
  "decimal_value c =
     map_option (\<lambda>z. c - z) (find (\<lambda>z. z \<le> c \<and> c < z + 10) decimal_zeros)"

text \<open>
  \<open>strptime(value, '%d.%m.%Y')\<close>. The library turns the format into the regular
  expression
  \<^verbatim>\<open>(?P<d>3[0-1]|[1-2]\d|0[1-9]|[1-9]| [1-9])\.(?P<m>1[0-2]|0[1-9]|[1-9])\.(?P<Y>\d\d\d\d)\<close>
  and matches it at the start of the text. A piece of the expression is a function from
  the input to the list of ways it can match there, each the matched text and the rest,
  in the order in which the backtracking matcher tries them. A range such as \<open>[1-9]\<close>
  is a range of code points; the class \<open>\d\<close> of a pattern on \<open>str\<close> is every decimal
  digit of Unicode.
\<close>

type_synonym regex = "utext \<Rightarrow> (utext \<times> utext) list"

definition re_range :: "nat \<Rightarrow> nat \<Rightarrow> regex" where
  "re_range a b s =
     (case s of
        [] \<Rightarrow> []
      | c # r \<Rightarrow> if a \<le> c \<and> c \<le> b then [([c], r)] else [])"

definition re_lit :: "nat \<Rightarrow> regex" where
  "re_lit a = re_range a a"

definition re_digit :: regex where
  "re_digit s =
     (case s of
        [] \<Rightarrow> []
      | c # r \<Rightarrow> if decimal_value c \<noteq> None then [([c], r)] else [])"

text \<open>Going on after each way of matching, in order.\<close>

definition re_bind :: "(utext \<times> utext) list \<Rightarrow> (utext \<Rightarrow> utext \<Rightarrow> 'a list) \<Rightarrow> 'a list" where
  "re_bind ms f = concat (map (\<lambda>(x, r). f x r) ms)"

definition re_seq :: "regex \<Rightarrow> regex \<Rightarrow> regex" where
  "re_seq p q s = re_bind (p s) (\<lambda>a r. re_bind (q r) (\<lambda>b r'. [(a @ b, r')]))"

definition re_alt :: "regex \<Rightarrow> regex \<Rightarrow> regex" where
  "re_alt p q s = p s @ q s"

definition re_d :: regex where
  "re_d =
     re_alt (re_seq (re_lit 51) (re_range 48 49))
    (re_alt (re_seq (re_range 49 50) re_digit)
    (re_alt (re_seq (re_lit 48) (re_range 49 57))
    (re_alt (re_range 49 57)
            (re_seq (re_lit 32) (re_range 49 57)))))"

definition re_m :: regex where
  "re_m =
     re_alt (re_seq (re_lit 49) (re_range 48 50))
    (re_alt (re_seq (re_lit 48) (re_range 49 57))
            (re_range 49 57))"

definition re_Y :: regex where
  "re_Y = re_seq re_digit (re_seq re_digit (re_seq re_digit re_digit))"

text \<open>All matches of the whole expression: the three groups and the unread rest.\<close>

definition format_regex_matches :: "utext \<Rightarrow> (utext \<times> utext \<times> utext \<times> utext) list" where
  "format_regex_matches s =
     re_bind (re_d s) (\<lambda>d r1.
     re_bind (re_lit 46 r1) (\<lambda>x r2.
     re_bind (re_m r2) (\<lambda>m r3.
     re_bind (re_lit 46 r3) (\<lambda>x' r4.
     re_bind (re_Y r4) (\<lambda>y r5. [(d, m, y, r5)])))))"

text \<open>
  \<open>int(text)\<close> on the texts that the groups can hold: decimal digits, after a blank in
  the case of the day. Each digit counts with its value.
\<close>

definition digit_val :: "nat \<Rightarrow> nat" where
  "digit_val c = (case decimal_value c of None \<Rightarrow> 0 | Some k \<Rightarrow> k)"

definition int_of_text :: "utext \<Rightarrow> int" where
  "int_of_text s =
     int (foldl (\<lambda>a c. 10 * a + digit_val c) 0 (dropWhile (\<lambda>c. c = 32) s))"

definition strptime_dmY :: "utext \<Rightarrow> exn + date" where
  "strptime_dmY data_string =
     (case format_regex_matches data_string of
        [] \<Rightarrow> Inl (ValueError ''time data does not match format'')
      | (d, m, y, rest) # _ \<Rightarrow>
          if rest \<noteq> [] then Inl (ValueError ''unconverted data remains'')
          else check_date_fields (int_of_text y) (int_of_text m) (int_of_text d))"

text \<open>\<open>class Birthday\<close>: the constructor turns any \<open>ValueError\<close> of the parser into its own.\<close>

definition Birthday :: "utext \<Rightarrow> exn + date Field" where
  "Birthday v =
     (case strptime_dmY v of
        Inl (ValueError m) \<Rightarrow> Inl (ValueError ''Invalid date format. Use DD.MM.YYYY'')
      | Inl e \<Rightarrow> Inl e
      | Inr d \<Rightarrow> Inr (Field d))"

definition str_Birthday :: "date Field \<Rightarrow> string" where
  "str_Birthday f = strftime_dmY (field_value f)"


section \<open>Records\<close>

text \<open>
  \<open>class Record\<close>. A method that raises with the object untouched returns \<open>Inl\<close> of the
  exception; a method that returns normally gives \<open>Inr\<close> of the object after the call.
\<close>

record Record =
  name :: "string Field"
  phones :: "string Field list"
  birthday :: "date Field option"

definition Record_init :: "string \<Rightarrow> Record" where
  "Record_init nm = \<lparr>name = Name nm, phones = [], birthday = None\<rparr>"

definition add_phone :: "Record \<Rightarrow> string \<Rightarrow> exn + Record" where
  "add_phone self phone =
     (case Phone phone of
        Inl e \<Rightarrow> Inl e
      | Inr p \<Rightarrow> Inr (self\<lparr>phones := phones self @ [p]\<rparr>))"

definition not_found :: "string \<Rightarrow> exn" where
  "not_found phone = ValueError ([CHR 0x27] @ phone @ [CHR 0x27] @ '' not found'')"

text \<open>
  The loop of \<open>remove_phone\<close>: the list without the first phone whose value is
  \<open>phone\<close>, or \<open>None\<close> when the loop ends without finding one.
\<close>

fun remove_first :: "string \<Rightarrow> string Field list \<Rightarrow> string Field list option" where
  "remove_first phone [] = None"
| "remove_first phone (p # ps) =
     (if field_value p = phone then Some ps
      else map_option ((#) p) (remove_first phone ps))"

definition remove_phone :: "Record \<Rightarrow> string \<Rightarrow> exn + Record" where
  "remove_phone self phone =
     (case remove_first phone (phones self) of
        Some ps \<Rightarrow> Inr (self\<lparr>phones := ps\<rparr>)
      | None \<Rightarrow> Inl (not_found phone))"

definition find_phone :: "Record \<Rightarrow> string \<Rightarrow> string Field option" where
  "find_phone self phone = find (\<lambda>p. field_value p = phone) (phones self)"

text \<open>
  \<open>edit_phone\<close> calls \<open>remove_phone\<close> and then \<open>add_phone\<close>, so it can raise after it
  has changed the object: it returns the object after the call together with the exception,
  if any.
\<close>

definition edit_phone :: "Record \<Rightarrow> string \<Rightarrow> string \<Rightarrow> Record \<times> exn option" where
  "edit_phone self old_phone new_phone =
     (case find_phone self old_phone of
        Some phone_to_edit \<Rightarrow>
          (case remove_phone self old_phone of
             Inl e \<Rightarrow> (self, Some e)
           | Inr self' \<Rightarrow>
               (case add_phone self' new_phone of
                  Inl e \<Rightarrow> (self', Some e)
                | Inr self'' \<Rightarrow> (self'', None)))
      | None \<Rightarrow> (self, Some (not_found old_phone)))"

definition add_birthday :: "Record \<Rightarrow> utext \<Rightarrow> exn + Record" where
  "add_birthday self b =
     (case Birthday b of
        Inl e \<Rightarrow> Inl e
      | Inr f \<Rightarrow> Inr (self\<lparr>birthday := Some f\<rparr>))"


section \<open>The address book\<close>

text \<open>
  \<open>self.data\<close> of a \<open>UserDict\<close> is a dictionary, which keeps the order of insertion: a
  list of pairs of key and value with distinct keys. Assigning to a key that is present
  replaces the value in place, assigning to a new key appends (\<open>AList.update\<close>).

  Records are objects: the book holds references, and a caller that has looked a record
  up changes it through the reference. A world is the list of the record objects made so
  far (the address of an object is its index) and the dictionary of the one address book,
  from names to addresses.
\<close>

type_synonym 'v dict = "(string \<times> 'v) list"

record World =
  heap :: "Record list"
  book :: "nat dict"

definition add_record :: "World \<Rightarrow> nat \<Rightarrow> World" where
  "add_record w a = w\<lparr>book := AList.update (field_value (name (heap w ! a))) a (book w)\<rparr>"

definition find_record :: "World \<Rightarrow> string \<Rightarrow> nat option" where
  "find_record w nm = map_of (book w) nm"

definition delete :: "World \<Rightarrow> string \<Rightarrow> exn + World" where
  "delete w nm =
     (if nm \<in> fst ` set (book w) then Inr (w\<lparr>book := AList.delete nm (book w)\<rparr>)
      else Inl (KeyError nm))"

text \<open>
  What iterating over the book yields: each key with the record that
  \<open>self.data.get(item)\<close> returns for it.
\<close>

definition contents :: "World \<Rightarrow> Record dict" where
  "contents w = map (\<lambda>(k, a). (k, heap w ! a)) (book w)"

text \<open>
  The body of the loop of \<open>get_upcoming_birthdays\<close> for one contact: \<open>Inl\<close> when a
  library call raises, \<open>Inr None\<close> when the contact is passed over, \<open>Inr (Some (n, d))\<close>
  when the line for name \<open>n\<close> and date \<open>d\<close> is appended to the result.
\<close>

definition visit :: "int \<Rightarrow> date \<Rightarrow> Record \<Rightarrow> exn + (string \<times> date) option" where
  "visit congratulation_period current_date contact =
     (case birthday contact of
        None \<Rightarrow> Inr None
      | Some b \<Rightarrow>
          (let birthday_dt = field_value b in
           case check_date_fields (year current_date) (month birthday_dt) (day birthday_dt) of
             Inl e \<Rightarrow> Inl e
           | Inr this_year \<Rightarrow>
               (case (if date_lt this_year current_date
                      then check_date_fields (year current_date + 1)
                             (month birthday_dt) (day birthday_dt)
                      else Inr this_year) of
                  Inl e \<Rightarrow> Inl e
                | Inr birthday_this_year \<Rightarrow>
                    if \<not> date_le current_date birthday_this_year then Inr None
                    else
                      (case date_add current_date congratulation_period of
                         Inl e \<Rightarrow> Inl e
                       | Inr limit \<Rightarrow>
                           if \<not> date_le birthday_this_year limit then Inr None
                           else
                             (case (if weekday birthday_this_year = 5
                                    then date_add birthday_this_year 2
                                    else if weekday birthday_this_year = 6
                                    then date_add birthday_this_year 1
                                    else Inr birthday_this_year) of
                                Inl e \<Rightarrow> Inl e
                              | Inr shown \<Rightarrow>
                                  Inr (Some (field_value (name contact), shown)))))))"

text \<open>The loop over the dictionary, in its order, with the result list built so far.\<close>

fun visit_all ::
  "int \<Rightarrow> date \<Rightarrow> Record dict \<Rightarrow> (string \<times> date) list \<Rightarrow> exn + (string \<times> date) list" where
  "visit_all period today [] result = Inr result"
| "visit_all period today ((item, contact) # rest) result =
     (case visit period today contact of
        Inl e \<Rightarrow> Inl e
      | Inr None \<Rightarrow> visit_all period today rest result
      | Inr (Some line) \<Rightarrow> visit_all period today rest (result @ [line]))"

text \<open>The lines that the visits of a dictionary append, one after the other.\<close>

definition entries_of :: "int \<Rightarrow> date \<Rightarrow> Record dict \<Rightarrow> (string \<times> date) list" where
  "entries_of p today data =
     concat (map (\<lambda>(k, r). case visit p today r of Inr (Some e) \<Rightarrow> [e] | _ \<Rightarrow> []) data)"

text \<open>
  The entries of the result as name and date, before they are written as text;
  \<open>today\<close> stands for \<open>datetime.today().date()\<close>.
\<close>

definition upcoming :: "Record dict \<Rightarrow> int \<Rightarrow> date \<Rightarrow> exn + (string \<times> date) list" where
  "upcoming data days today =
     (case timedelta days of
        Inl e \<Rightarrow> Inl e
      | Inr congratulation_period \<Rightarrow> visit_all congratulation_period today data [])"

definition line_of :: "string \<times> date \<Rightarrow> string" where
  "line_of e = ''Contact name: '' @ fst e @ '', birthday: '' @ strftime_dmY (snd e)"

definition get_upcoming_birthdays :: "World \<Rightarrow> int \<Rightarrow> date \<Rightarrow> exn + string list" where
  "get_upcoming_birthdays w days today =
     (case upcoming (contents w) days today of
        Inl e \<Rightarrow> Inl e
      | Inr entries \<Rightarrow> Inr (map line_of entries))"


section \<open>Calls from outside\<close>

text \<open>
  The calls by which the world changes: making a record, the methods of a record
  through its address, the assignment \<open>record.phones = []\<close> of \<open>change_contact\<close>, and
  the two methods of the book that write. A call leaves the world after it and the
  exception it raised, if any.
\<close>

datatype call =
    New_Record string
  | Add_phone nat string
  | Remove_phone nat string
  | Edit_phone nat string string
  | Add_birthday nat utext
  | Set_phones_empty nat
  | Add_record nat
  | Delete string

definition call_method :: "World \<Rightarrow> nat \<Rightarrow> (Record \<Rightarrow> exn + Record) \<Rightarrow> World \<times> exn option" where
  "call_method w a m =
     (case m (heap w ! a) of
        Inl e \<Rightarrow> (w, Some e)
      | Inr r \<Rightarrow> (w\<lparr>heap := (heap w)[a := r]\<rparr>, None))"

fun exec :: "call \<Rightarrow> World \<Rightarrow> World \<times> exn option" where
  "exec (New_Record nm) w = (w\<lparr>heap := heap w @ [Record_init nm]\<rparr>, None)"
| "exec (Add_phone a p) w = call_method w a (\<lambda>r. add_phone r p)"
| "exec (Remove_phone a p) w = call_method w a (\<lambda>r. remove_phone r p)"
| "exec (Edit_phone a old new) w =
     (case edit_phone (heap w ! a) old new of
        (r, e) \<Rightarrow> (w\<lparr>heap := (heap w)[a := r]\<rparr>, e))"
| "exec (Add_birthday a b) w = call_method w a (\<lambda>r. add_birthday r b)"
| "exec (Set_phones_empty a) w = (w\<lparr>heap := (heap w)[a := (heap w ! a)\<lparr>phones := []\<rparr>]\<rparr>, None)"
| "exec (Add_record a) w = (add_record w a, None)"
| "exec (Delete nm) w = (case delete w nm of Inl e \<Rightarrow> (w, Some e) | Inr w' \<Rightarrow> (w', None))"

text \<open>A call can only name an object that exists.\<close>

fun call_ok :: "World \<Rightarrow> call \<Rightarrow> bool" where
  "call_ok w (New_Record nm) = True"
| "call_ok w (Add_phone a p) = (a < length (heap w))"
| "call_ok w (Remove_phone a p) = (a < length (heap w))"
| "call_ok w (Edit_phone a old new) = (a < length (heap w))"
| "call_ok w (Add_birthday a b) = (a < length (heap w))"
| "call_ok w (Set_phones_empty a) = (a < length (heap w))"
| "call_ok w (Add_record a) = (a < length (heap w))"
| "call_ok w (Delete nm) = True"

inductive reachable :: "World \<Rightarrow> bool" where
  init: "reachable \<lparr>heap = [], book = []\<rparr>"
| step: "reachable w \<Longrightarrow> call_ok w c \<Longrightarrow> reachable (fst (exec c w))"

text \<open>The invariant of the book: every key is the name of the record it leads to.\<close>

definition keys_are_names :: "World \<Rightarrow> bool" where
  "keys_are_names w = (\<forall>(k, r) \<in> set (contents w). field_value (name r) = k)"

definition book_ok :: "World \<Rightarrow> bool" where
  "book_ok w =
     (distinct (map fst (book w)) \<and> (\<forall>(k, a) \<in> set (book w). a < length (heap w)) \<and>
      keys_are_names w)"


section \<open>The claims in the words of the specification\<close>

text \<open>
  The candidate occurrence of a birthday \<open>b\<close>: the date of its month and day in the
  year of \<open>today\<close>, unless that date is strictly before \<open>today\<close>, in which case the date of
  the same month and day in the following year. It is an exception when the date that
  is needed does not exist.
\<close>

definition candidate_occurrence :: "date \<Rightarrow> date \<Rightarrow> exn + date" where
  "candidate_occurrence today b =
     (case check_date_fields (year today) (month b) (day b) of
        Inl e \<Rightarrow> Inl e
      | Inr this_year \<Rightarrow>
          if date_lt this_year today
          then check_date_fields (year today + 1) (month b) (day b)
          else Inr this_year)"

text \<open>The inclusive window: \<open>today \<le> occurrence \<le> today + days\<close>.\<close>

definition in_window :: "date \<Rightarrow> int \<Rightarrow> date \<Rightarrow> bool" where
  "in_window today days occ =
     (case date_add today days of
        Inl e \<Rightarrow> False
      | Inr limit \<Rightarrow> date_le today occ \<and> date_le occ limit)"

text \<open>
  The date that is reported for an occurrence: two days later when the occurrence is a
  Saturday, one day later when it is a Sunday, the occurrence itself otherwise.
\<close>

definition reported :: "date \<Rightarrow> exn + date" where
  "reported occ =
     (if weekday occ = 5 then date_add occ 2
      else if weekday occ = 6 then date_add occ 1
      else Inr occ)"

text \<open>A record is included when it has a birthday whose candidate occurrence is in the window.\<close>

definition included :: "date \<Rightarrow> int \<Rightarrow> Record \<Rightarrow> bool" where
  "included today days r =
     (case birthday r of
        None \<Rightarrow> False
      | Some b \<Rightarrow>
          (case candidate_occurrence today (field_value b) of
             Inl e \<Rightarrow> False
           | Inr occ \<Rightarrow> in_window today days occ))"

text \<open>
  The texts that the three groups of the regular expression match: the day, the month and
  the year.
\<close>

definition day_group :: "utext \<Rightarrow> bool" where
  "day_group x =
     (case x of
        [c] \<Rightarrow> 49 \<le> c \<and> c \<le> 57
      | [c1, c2] \<Rightarrow>
          (c1 = 51 \<and> (c2 = 48 \<or> c2 = 49)) \<or>
          ((c1 = 49 \<or> c1 = 50) \<and> decimal_value c2 \<noteq> None) \<or>
          (c1 = 48 \<and> 49 \<le> c2 \<and> c2 \<le> 57) \<or>
          (c1 = 32 \<and> 49 \<le> c2 \<and> c2 \<le> 57)
      | _ \<Rightarrow> False)"

definition month_group :: "utext \<Rightarrow> bool" where
  "month_group x =
     (case x of
        [c] \<Rightarrow> 49 \<le> c \<and> c \<le> 57
      | [c1, c2] \<Rightarrow>
          (c1 = 49 \<and> (c2 = 48 \<or> c2 = 49 \<or> c2 = 50)) \<or>
          (c1 = 48 \<and> 49 \<le> c2 \<and> c2 \<le> 57)
      | _ \<Rightarrow> False)"

definition year_group :: "utext \<Rightarrow> bool" where
  "year_group x = (length x = 4 \<and> list_all (\<lambda>c. decimal_value c \<noteq> None) x)"

text \<open>
  The ways of writing a birthday, in words. An ASCII digit is one of the characters
  \<open>0\<close> to \<open>9\<close>. A day is written with two ASCII digits, where the second digit of a
  day from 10 to 29 may be any decimal digit of Unicode of that value; a day below ten may
  also be written as its ASCII digit alone, or as a blank and that digit. A month is
  written with two ASCII digits, or below ten with its ASCII digit alone. A year is
  written with four decimal digits of Unicode.
\<close>

definition ascii_digit :: "nat \<Rightarrow> nat" where
  "ascii_digit k = 48 + k"

definition day_text :: "nat \<Rightarrow> utext \<Rightarrow> bool" where
  "day_text d x =
     (case x of
        [c] \<Rightarrow> d < 10 \<and> c = ascii_digit d
      | [c1, c2] \<Rightarrow>
          (d < 10 \<and> c1 = 32 \<and> c2 = ascii_digit d) \<or>
          (d < 100 \<and> c1 = ascii_digit (d div 10) \<and>
           (if 10 \<le> d \<and> d < 30 then decimal_value c2 = Some (d mod 10)
            else c2 = ascii_digit (d mod 10)))
      | _ \<Rightarrow> False)"

definition month_text :: "nat \<Rightarrow> utext \<Rightarrow> bool" where
  "month_text m x =
     (case x of
        [c] \<Rightarrow> m < 10 \<and> c = ascii_digit m
      | [c1, c2] \<Rightarrow> m < 100 \<and> c1 = ascii_digit (m div 10) \<and> c2 = ascii_digit (m mod 10)
      | _ \<Rightarrow> False)"

definition year_text :: "nat \<Rightarrow> utext \<Rightarrow> bool" where
  "year_text y x =
     (case x of
        [c1, c2, c3, c4] \<Rightarrow>
          decimal_value c1 = Some (y div 1000) \<and> decimal_value c2 = Some (y div 100 mod 10) \<and>
          decimal_value c3 = Some (y div 10 mod 10) \<and> decimal_value c4 = Some (y mod 10)
      | _ \<Rightarrow> False)"

text \<open>
  The fixed pattern of two digits, a dot, two digits, a dot and four digits, where every
  decimal digit of Unicode counts as a digit.
\<close>

definition fixed_pattern :: "utext \<Rightarrow> bool" where
  "fixed_pattern v =
     (case v of
        [d1, d2, p, m1, m2, q, y1, y2, y3, y4] \<Rightarrow>
          p = 46 \<and> q = 46 \<and>
          list_all (\<lambda>c. decimal_value c \<noteq> None) [d1, d2, m1, m2, y1, y2, y3, y4]
      | _ \<Rightarrow> False)"

text \<open>
  The year of the candidate occurrence of a birthday on 29 February: the year of
  \<open>today\<close>, unless 29 February of that year exists and is strictly before \<open>today\<close>, in
  which case the following year.
\<close>

definition candidate_year_feb29 :: "date \<Rightarrow> int" where
  "candidate_year_feb29 today =
     (if is_leap (year today) \<and> date_lt (Date (year today) 2 29) today
      then year today + 1 else year today)"


section \<open>Phones\<close>

lemma Phone_Inr: "Phone v = Inr p \<Longrightarrow> p = Field v \<and> length v = 10 \<and> list_all isdigit_char v"
  by (auto simp: Phone_def isdigit_def split: if_splits)

lemma Phone_accepts: "length v = 10 \<Longrightarrow> list_all isdigit_char v \<Longrightarrow> Phone v = Inr (Field v)"
  by (auto simp: Phone_def isdigit_def)

lemma decimal_isdigit: "decimal_char c \<Longrightarrow> isdigit_char c"
  by (simp add: decimal_char_def isdigit_char_def Let_def)

text \<open>
  C5, as amended. \<open>Phone\<close> raises its \<open>ValueError\<close> exactly when the text does not have
  length 10 with every character accepted by \<open>str.isdigit\<close>; it raises nothing else;
  it accepts every text of ten characters \<open>0\<close> to \<open>9\<close>; and an accepted text is
  rendered back unchanged.
\<close>

theorem Phone_isdigit:
  "(Phone v = Inl (ValueError ''The number must be 10 digits long'')
      \<longleftrightarrow> \<not> (length v = 10 \<and> list_all isdigit_char v)) \<and>
   (\<forall>e. Phone v = Inl e \<longrightarrow> e = ValueError ''The number must be 10 digits long'') \<and>
   (length v = 10 \<and> list_all decimal_char v \<longrightarrow> Phone v = Inr (Field v)) \<and>
   (\<forall>p. Phone v = Inr p \<longrightarrow> str_Field p = v)"
proof -
  have a: "Phone v = Inl (ValueError ''The number must be 10 digits long'')
      \<longleftrightarrow> \<not> (length v = 10 \<and> list_all isdigit_char v)"
    by (auto simp: Phone_def isdigit_def)
  have b: "\<forall>e. Phone v = Inl e \<longrightarrow> e = ValueError ''The number must be 10 digits long''"
    by (auto simp: Phone_def split: if_splits)
  have c: "length v = 10 \<and> list_all decimal_char v \<longrightarrow> Phone v = Inr (Field v)"
    using Phone_accepts [of v] decimal_isdigit by (auto simp: list_all_iff)
  have d: "\<forall>p. Phone v = Inr p \<longrightarrow> str_Field p = v"
    by (auto simp: str_Field_def dest: Phone_Inr)
  from a b c d show ?thesis by blast
qed

theorem Phone_isdigit_witness:
  "length ''0501234567'' = 10 \<and> list_all decimal_char ''0501234567'' \<and>
   Phone ''0501234567'' = Inr (Field ''0501234567'') \<and>
   str_Field (Field ''0501234567'') = ''0501234567'' \<and>
   Phone ''12345'' = Inl (ValueError ''The number must be 10 digits long'')"
proof -
  have h: "length ''0501234567'' = 10 \<and> list_all decimal_char ''0501234567''"
    by (simp add: decimal_char_def)
  have n: "\<not> (length ''12345'' = 10 \<and> list_all isdigit_char ''12345'')"
    by simp
  from Phone_isdigit [of "''0501234567''"] h
  have p: "Phone ''0501234567'' = Inr (Field ''0501234567'')" by blast
  with Phone_isdigit [of "''0501234567''"]
  have s: "str_Field (Field ''0501234567'') = ''0501234567''" by blast
  from Phone_isdigit [of "''12345''"] n
  have f: "Phone ''12345'' = Inl (ValueError ''The number must be 10 digits long'')" by blast
  from h p s f show ?thesis by blast
qed

text \<open>
  C5 as stated fails: ten times SUPERSCRIPT TWO is not a text of ten decimal digits, and
  \<open>Phone\<close> accepts it.
\<close>

theorem Phone_superscript_counterexample:
  "\<not> (is_ValueError (Phone (replicate 10 (CHR 0xB2)))
        \<longleftrightarrow> \<not> (length (replicate 10 (CHR 0xB2)) = 10 \<and>
               list_all decimal_char (replicate 10 (CHR 0xB2))))"
  by (simp add: Phone_def isdigit_def isdigit_char_def decimal_char_def is_ValueError_def
      list_all_iff)


section \<open>Removing and editing phones\<close>

lemma remove_first_None: "remove_first q ps = None \<longleftrightarrow> q \<notin> field_value ` set ps"
  by (induction ps) auto

lemma remove_first_remove1:
  "q \<in> field_value ` set ps \<Longrightarrow> remove_first q ps = Some (remove1 (Field q) ps)"
proof (induction ps)
  case Nil
  then show ?case by simp
next
  case (Cons a ps)
  then show ?case by (cases a) auto
qed

lemma remove_first_append_new:
  "q \<notin> field_value ` set ps \<Longrightarrow> remove_first q (ps @ [Field q]) = Some ps"
  by (induction ps) auto

lemma remove_first_append_old:
  "q \<in> field_value ` set ps \<Longrightarrow>
   remove_first q (ps @ [Field q]) = Some (remove1 (Field q) ps @ [Field q])"
proof (induction ps)
  case Nil
  then show ?case by simp
next
  case (Cons a ps)
  then show ?case by (cases a) auto
qed

lemma find_phone_None: "find_phone r q = None \<longleftrightarrow> q \<notin> field_value ` set (phones r)"
  by (auto simp: find_phone_def find_None_iff)

text \<open>What \<open>edit_phone\<close> does in each of its three cases.\<close>

lemma edit_phone_cases:
  "edit_phone r old new =
     (if old \<notin> field_value ` set (phones r) then (r, Some (not_found old))
      else if \<not> (length new = 10 \<and> list_all isdigit_char new)
        then (r\<lparr>phones := remove1 (Field old) (phones r)\<rparr>,
              Some (ValueError ''The number must be 10 digits long''))
      else (r\<lparr>phones := remove1 (Field old) (phones r) @ [Field new]\<rparr>, None))"
proof (cases "old \<in> field_value ` set (phones r)")
  case False
  then have "find_phone r old = None" by (simp add: find_phone_None)
  with False show ?thesis by (simp add: edit_phone_def)
next
  case True
  then obtain p where p: "find_phone r old = Some p"
    using find_phone_None [of r old] by (cases "find_phone r old") auto
  have rm: "remove_phone r old = Inr (r\<lparr>phones := remove1 (Field old) (phones r)\<rparr>)"
    using True by (simp add: remove_phone_def remove_first_remove1)
  show ?thesis
  proof (cases "length new = 10 \<and> list_all isdigit_char new")
    case ok: True
    then have "Phone new = Inr (Field new)" by (simp add: Phone_accepts)
    with True p rm ok show ?thesis by (simp add: edit_phone_def add_phone_def)
  next
    case bad: False
    then have "Phone new = Inl (ValueError ''The number must be 10 digits long'')"
      by (auto simp: Phone_def isdigit_def)
    with True p rm bad show ?thesis by (simp add: edit_phone_def add_phone_def)
  qed
qed

text \<open>
  C4: the claim says that a failed \<open>edit_phone\<close> leaves the phones as they were. The
  code removes the old phone before it validates the new one: on a record that holds
  the phone 1111111111, editing it to the malformed 12345 raises the \<open>ValueError\<close> of
  \<open>Phone\<close> and leaves the record with no phone at all.
\<close>

theorem edit_phone_invalid_new_loses_old:
  "edit_phone \<lparr>name = Name ''ann'', phones = [Field ''1111111111''], birthday = None\<rparr>
     ''1111111111'' ''12345''
   = (\<lparr>name = Name ''ann'', phones = [], birthday = None\<rparr>,
      Some (ValueError ''The number must be 10 digits long''))"
  by (simp add: edit_phone_def find_phone_def remove_phone_def add_phone_def Phone_def)

text \<open>
  C9, as amended. After \<open>add_phone\<close> of a valid phone \<open>p\<close>, \<open>remove_phone\<close> of \<open>p\<close>
  succeeds; it gives the record back as it was when \<open>p\<close> was not stored before, and
  otherwise leaves the phones without the first stored \<open>p\<close> and with \<open>p\<close> at the end.
  \<open>remove_phone\<close> of a text that is not stored raises the "not found" \<open>ValueError\<close>.
\<close>

theorem add_then_remove_phone:
  "(Phone p = Inr f \<longrightarrow>
      (\<exists>r1. add_phone r p = Inr r1 \<and>
            remove_phone r1 p =
              Inr (r\<lparr>phones := if p \<in> field_value ` set (phones r)
                                then remove1 (Field p) (phones r) @ [Field p]
                                else phones r\<rparr>))) \<and>
   (q \<notin> field_value ` set (phones r) \<longrightarrow> remove_phone r q = Inl (not_found q))"
proof -
  have "remove_phone r q = Inl (not_found q)" if "q \<notin> field_value ` set (phones r)"
    using that remove_first_None [of q "phones r"] by (simp add: remove_phone_def)
  moreover have "\<exists>r1. add_phone r p = Inr r1 \<and>
            remove_phone r1 p =
              Inr (r\<lparr>phones := if p \<in> field_value ` set (phones r)
                                then remove1 (Field p) (phones r) @ [Field p]
                                else phones r\<rparr>)" if "Phone p = Inr f"
  proof -
    from that have f: "f = Field p" by (simp add: Phone_Inr)
    have a: "add_phone r p = Inr (r\<lparr>phones := phones r @ [Field p]\<rparr>)"
      using that f by (simp add: add_phone_def)
    show ?thesis
    proof (cases "p \<in> field_value ` set (phones r)")
      case True
      then show ?thesis using a remove_first_append_old [of p "phones r"]
        by (simp add: remove_phone_def)
    next
      case False
      then show ?thesis using a remove_first_append_new [of p "phones r"]
        by (simp add: remove_phone_def)
    qed
  qed
  ultimately show ?thesis by blast
qed


theorem add_then_remove_phone_witness:
  "Phone ''3333333333'' = Inr (Field ''3333333333'') \<and>
   ''4444444444'' \<notin> field_value ` set [Field ''1111111111'', Field ''2222222222''] \<and>
   (\<exists>r1. add_phone \<lparr>name = Name ''ann'', phones = [Field ''1111111111'', Field ''2222222222''],
                    birthday = None\<rparr> ''3333333333'' = Inr r1 \<and>
         remove_phone r1 ''3333333333'' =
           Inr \<lparr>name = Name ''ann'', phones = [Field ''1111111111'', Field ''2222222222''],
                birthday = None\<rparr>) \<and>
   remove_phone \<lparr>name = Name ''ann'', phones = [Field ''1111111111'', Field ''2222222222''],
                 birthday = None\<rparr> ''4444444444'' = Inl (not_found ''4444444444'')"
proof -
  have p: "Phone ''3333333333'' = Inr (Field ''3333333333'')"
    by (simp add: Phone_def isdigit_def isdigit_char_def)
  have q: "''4444444444'' \<notin> field_value ` set [Field ''1111111111'', Field ''2222222222'']"
    by simp
  show ?thesis
    using p q
      add_then_remove_phone [of "''3333333333''" "Field ''3333333333''"
        "\<lparr>name = Name ''ann'', phones = [Field ''1111111111'', Field ''2222222222''],
          birthday = None\<rparr>" "''4444444444''"]
    by simp
qed

text \<open>
  C9 as stated fails: on a record that holds 1111111111 and then 2222222222, adding
  1111111111 and removing it again leaves the two phones in the other order.
\<close>

theorem add_then_remove_phone_counterexample:
  "add_phone \<lparr>name = Name ''ann'', phones = [Field ''1111111111'', Field ''2222222222''],
              birthday = None\<rparr> ''1111111111''
     = Inr \<lparr>name = Name ''ann'',
            phones = [Field ''1111111111'', Field ''2222222222'', Field ''1111111111''],
            birthday = None\<rparr> \<and>
   remove_phone \<lparr>name = Name ''ann'',
                 phones = [Field ''1111111111'', Field ''2222222222'', Field ''1111111111''],
                 birthday = None\<rparr> ''1111111111''
     = Inr \<lparr>name = Name ''ann'', phones = [Field ''2222222222'', Field ''1111111111''],
            birthday = None\<rparr> \<and>
   [Field ''2222222222'', Field ''1111111111''] \<noteq> [Field ''1111111111'', Field ''2222222222'']"
  by (simp add: add_phone_def remove_phone_def Phone_def isdigit_def isdigit_char_def)


section \<open>Upcoming birthdays\<close>

lemma visit_unfold:
  "visit p today r =
     (case birthday r of
        None \<Rightarrow> Inr None
      | Some b \<Rightarrow>
          (case candidate_occurrence today (field_value b) of
             Inl e \<Rightarrow> Inl e
           | Inr occ \<Rightarrow>
               if \<not> date_le today occ then Inr None
               else (case date_add today p of
                       Inl e \<Rightarrow> Inl e
                     | Inr limit \<Rightarrow>
                         if \<not> date_le occ limit then Inr None
                         else (case reported occ of
                                 Inl e \<Rightarrow> Inl e
                               | Inr d \<Rightarrow> Inr (Some (field_value (name r), d))))))"
  by (simp add: visit_def candidate_occurrence_def reported_def Let_def
      split: option.splits sum.splits)

lemma visit_Some_iff:
  "visit p today r = Inr (Some e) \<longleftrightarrow>
     (\<exists>b occ d. birthday r = Some b \<and> candidate_occurrence today (field_value b) = Inr occ \<and>
        in_window today p occ \<and> reported occ = Inr d \<and> e = (field_value (name r), d))"
  by (auto simp: visit_unfold in_window_def split: option.splits sum.splits if_splits)

lemma visit_None_iff:
  "visit p today r = Inr None \<longleftrightarrow>
     (birthday r = None \<or>
      (\<exists>b occ. birthday r = Some b \<and> candidate_occurrence today (field_value b) = Inr occ \<and>
         (\<not> date_le today occ \<or> (\<exists>limit. date_add today p = Inr limit \<and> \<not> date_le occ limit))))"
  by (auto simp: visit_unfold split: option.splits sum.splits if_splits)

lemma visit_Inr_included:
  "visit p today r = Inr x \<Longrightarrow> (x \<noteq> None) = included today p r"
  unfolding visit_unfold included_def in_window_def
  by (auto split: option.splits sum.splits if_splits)

lemma visit_all_Inr_iff:
  "visit_all p today data acc = Inr res \<longleftrightarrow>
     (\<forall>(k, r) \<in> set data. \<exists>x. visit p today r = Inr x) \<and>
     res = acc @ entries_of p today data"
proof (induction data arbitrary: acc)
  case Nil
  then show ?case by (auto simp: entries_of_def)
next
  case (Cons kr data)
  obtain k r where kr: "kr = (k, r)" by (cases kr)
  show ?case
  proof (cases "visit p today r")
    case (Inl e)
    then show ?thesis using kr by auto
  next
    case (Inr x)
    then show ?thesis using kr Cons.IH
      by (cases x) (auto simp: entries_of_def)
  qed
qed


lemma visit_all_Inl:
  assumes "(k, r) \<in> set data" and "visit p today r = Inl e"
  shows "\<exists>e'. visit_all p today data acc = Inl e'"
proof (cases "visit_all p today data acc")
  case (Inl e')
  then show ?thesis by blast
next
  case (Inr res)
  then have "\<forall>(k, r) \<in> set data. \<exists>x. visit p today r = Inr x"
    by (simp add: visit_all_Inr_iff)
  with assms show ?thesis by fastforce
qed

lemma upcoming_Inr_iff:
  "upcoming data days today = Inr res \<longleftrightarrow>
     \<bar>days\<bar> \<le> 999999999 \<and> (\<forall>(k, r) \<in> set data. \<exists>x. visit days today r = Inr x) \<and>
     res = entries_of days today data"
  by (auto simp: upcoming_def timedelta_def visit_all_Inr_iff)

lemma entries_of_names:
  "\<forall>(k, r) \<in> set data. \<exists>x. visit p today r = Inr x \<Longrightarrow>
   map fst (entries_of p today data) =
   map (\<lambda>(k, r). field_value (name r)) (filter (\<lambda>(k, r). included today p r) data)"
proof (induction data)
  case Nil
  then show ?case by (simp add: entries_of_def)
next
  case (Cons kr data)
  obtain k r where kr: "kr = (k, r)" by (cases kr)
  from Cons.prems kr obtain x where x: "visit p today r = Inr x" by auto
  have tl: "map fst (entries_of p today data) =
     map (\<lambda>(k, r). field_value (name r)) (filter (\<lambda>(k, r). included today p r) data)"
    using Cons by simp
  have split: "entries_of p today (kr # data) =
      (case x of None \<Rightarrow> [] | Some e \<Rightarrow> [e]) @ entries_of p today data"
    using kr x by (simp add: entries_of_def split: option.splits)
  show ?case
  proof (cases x)
    case None
    with x have "\<not> included today p r" using visit_Inr_included [of p today r x] by simp
    with None split tl kr show ?thesis by simp
  next
    case (Some e)
    with x have inc: "included today p r" using visit_Inr_included [of p today r x] by simp
    from Some x have "fst e = field_value (name r)" by (auto simp: visit_Some_iff)
    with Some split tl kr inc show ?thesis by simp
  qed
qed

lemma entries_of_set:
  "e \<in> set (entries_of p today data) \<longleftrightarrow> (\<exists>(k, r) \<in> set data. visit p today r = Inr (Some e))"
proof (induction data)
  case Nil
  then show ?case by (simp add: entries_of_def)
next
  case (Cons kr data)
  obtain k r where kr: "kr = (k, r)" by (cases kr)
  have "entries_of p today (kr # data) =
      (case visit p today r of Inr (Some e) \<Rightarrow> [e] | _ \<Rightarrow> []) @ entries_of p today data"
    using kr by (simp add: entries_of_def)
  then show ?case using Cons.IH kr
    by (auto split: sum.splits option.splits)
qed

text \<open>
  C7. When \<open>upcoming\<close> returns, the names in its result are the names of the included
  records in the order in which the dictionary holds them: the result follows the
  insertion order of the book, whatever the dates are.
\<close>

theorem result_in_book_order:
  "upcoming data days today = Inr res \<Longrightarrow>
   map fst res =
   map (\<lambda>(k, r). field_value (name r)) (filter (\<lambda>(k, r). included today days r) data)"
  by (simp add: upcoming_Inr_iff entries_of_names)

lemma contents_keys: "map fst (contents w) = map fst (book w)"
  by (simp add: contents_def case_prod_unfold)

lemmas calendar_defs =
  check_date_fields_def days_in_month_def DAYS_IN_MONTH_def is_leap_def date_lt_def
  date_le_def date_add_def toordinal_def ymd2ord_def days_before_year_def
  days_before_month_def DAYS_BEFORE_MONTH_def MAXORDINAL_def fromordinal_def ord2ymd_def
  month_day_of_def DI400Y_def DI100Y_def DI4Y_def weekday_def MINYEAR_def MAXYEAR_def
  timedelta_def

lemma june15_2024:
  assumes "month b = 6" and "day b = 15"
  shows "candidate_occurrence (Date 2024 6 10) b = Inr (Date 2024 6 15)"
    and "in_window (Date 2024 6 10) 7 (Date 2024 6 15)"
    and "reported (Date 2024 6 15) = Inr (Date 2024 6 17)"
    and "weekday (Date 2024 6 15) = 5" and "weekday (Date 2024 6 10) = 0"
  using assms
  by (simp_all add: candidate_occurrence_def in_window_def reported_def calendar_defs Let_def)

text \<open>
  C1. When \<open>upcoming\<close> returns, every included record has an entry in the result whose
  date is the candidate occurrence plus two days when that is a Saturday, plus one day
  when it is a Sunday, and the occurrence itself otherwise, while the window test is
  made on the occurrence itself. In particular, on 2024-06-10 (a Monday) a contact whose
  birthday is on 15 June (a Saturday in 2024) is listed for a window of 7 days with the
  date 2024-06-17: alone in the book, and in every book for which the call returns.
\<close>

theorem weekend_shift_reported_only:
  "(upcoming data days today = Inr res \<and> (k, r) \<in> set data \<and> included today days r \<longrightarrow>
      (\<exists>b occ d. birthday r = Some b \<and>
         candidate_occurrence today (field_value b) = Inr occ \<and>
         in_window today days occ \<and> (field_value (name r), d) \<in> set res \<and>
         (weekday occ = 5 \<longrightarrow> date_add occ 2 = Inr d) \<and>
         (weekday occ = 6 \<longrightarrow> date_add occ 1 = Inr d) \<and>
         (weekday occ \<noteq> 5 \<and> weekday occ \<noteq> 6 \<longrightarrow> d = occ))) \<and>
   (birthday r' = Some b' \<and> month (field_value b') = 6 \<and> day (field_value b') = 15 \<longrightarrow>
      weekday (Date 2024 6 10) = 0 \<and>
      candidate_occurrence (Date 2024 6 10) (field_value b') = Inr (Date 2024 6 15) \<and>
      weekday (Date 2024 6 15) = 5 \<and>
      upcoming [(k', r')] 7 (Date 2024 6 10) = Inr [(field_value (name r'), Date 2024 6 17)] \<and>
      ((k', r') \<in> set data' \<and> upcoming data' 7 (Date 2024 6 10) = Inr res' \<longrightarrow>
         (field_value (name r'), Date 2024 6 17) \<in> set res'))"
proof -
  have general: "\<exists>b occ d. birthday r = Some b \<and>
         candidate_occurrence today (field_value b) = Inr occ \<and>
         in_window today days occ \<and> (field_value (name r), d) \<in> set res \<and>
         (weekday occ = 5 \<longrightarrow> date_add occ 2 = Inr d) \<and>
         (weekday occ = 6 \<longrightarrow> date_add occ 1 = Inr d) \<and>
         (weekday occ \<noteq> 5 \<and> weekday occ \<noteq> 6 \<longrightarrow> d = occ)"
    if ret: "upcoming data days today = Inr res" and mem: "(k, r) \<in> set data"
      and inc: "included today days r"
  proof -
    from ret have all: "\<forall>(k, r) \<in> set data. \<exists>x. visit days today r = Inr x"
      and res: "res = entries_of days today data"
      by (simp_all add: upcoming_Inr_iff)
    from all mem obtain x where x: "visit days today r = Inr x" by auto
    with inc have "x \<noteq> None" using visit_Inr_included [of days today r x] by simp
    then obtain e where e: "visit days today r = Inr (Some e)" using x by auto
    then obtain b occ d where b: "birthday r = Some b"
      and occ: "candidate_occurrence today (field_value b) = Inr occ"
      and win: "in_window today days occ" and rep: "reported occ = Inr d"
      and e_eq: "e = (field_value (name r), d)"
      by (auto simp: visit_Some_iff)
    from e mem res e_eq have "(field_value (name r), d) \<in> set res"
      by (auto simp: entries_of_set)
    moreover from rep have "(weekday occ = 5 \<longrightarrow> date_add occ 2 = Inr d) \<and>
         (weekday occ = 6 \<longrightarrow> date_add occ 1 = Inr d) \<and>
         (weekday occ \<noteq> 5 \<and> weekday occ \<noteq> 6 \<longrightarrow> d = occ)"
      by (auto simp: reported_def split: if_splits)
    ultimately show ?thesis using b occ win by blast
  qed
  have example: "weekday (Date 2024 6 10) = 0 \<and>
      candidate_occurrence (Date 2024 6 10) (field_value b') = Inr (Date 2024 6 15) \<and>
      weekday (Date 2024 6 15) = 5 \<and>
      upcoming [(k', r')] 7 (Date 2024 6 10) = Inr [(field_value (name r'), Date 2024 6 17)] \<and>
      ((k', r') \<in> set data' \<and> upcoming data' 7 (Date 2024 6 10) = Inr res' \<longrightarrow>
         (field_value (name r'), Date 2024 6 17) \<in> set res')"
    if b: "birthday r' = Some b'" and m: "month (field_value b') = 6"
      and d: "day (field_value b') = 15"
  proof -
    note f = june15_2024 [OF m d]
    have v: "visit 7 (Date 2024 6 10) r' = Inr (Some (field_value (name r'), Date 2024 6 17))"
      using b f by (auto simp: visit_Some_iff)
    then have one: "upcoming [(k', r')] 7 (Date 2024 6 10)
        = Inr [(field_value (name r'), Date 2024 6 17)]"
      by (simp add: upcoming_def timedelta_def)
    have "(field_value (name r'), Date 2024 6 17) \<in> set res'"
      if "(k', r') \<in> set data'" and "upcoming data' 7 (Date 2024 6 10) = Inr res'"
      using that v by (auto simp: upcoming_Inr_iff entries_of_set)
    with f one show ?thesis by simp
  qed
  from general example show ?thesis by blast
qed

text \<open>
  C2, as amended. When \<open>upcoming\<close> returns on a well-formed book, a record of the book is
  in the result if and only if it has a birthday whose candidate occurrence lies in the
  inclusive window from \<open>today\<close> to \<open>today + days\<close>; a record without a birthday is
  not in the result.
\<close>

theorem included_iff_in_window:
  assumes "book_ok w" and "upcoming (contents w) days today = Inr res"
    and "(k, r) \<in> set (contents w)"
  shows "(k \<in> fst ` set res \<longleftrightarrow>
           (\<exists>b occ limit. birthday r = Some b \<and>
              candidate_occurrence today (field_value b) = Inr occ \<and>
              date_add today days = Inr limit \<and> date_le today occ \<and> date_le occ limit)) \<and>
         (birthday r = None \<longrightarrow> k \<notin> fst ` set res)"
proof -
  from assms(2) have all: "\<forall>(k, r) \<in> set (contents w). \<exists>x. visit days today r = Inr x"
    and res: "res = entries_of days today (contents w)"
    by (simp_all add: upcoming_Inr_iff)
  from assms(1) have dist: "distinct (map fst (contents w))"
    and names: "\<forall>(k, r) \<in> set (contents w). field_value (name r) = k"
    by (simp_all add: book_ok_def keys_are_names_def contents_keys)
  from all assms(3) obtain x where x: "visit days today r = Inr x" by auto
  have "k \<in> fst ` set res \<longleftrightarrow> x \<noteq> None"
  proof
    assume "k \<in> fst ` set res"
    then obtain e where e: "e \<in> set res" and k: "fst e = k" by auto
    from e res obtain k' r' where m': "(k', r') \<in> set (contents w)"
      and v': "visit days today r' = Inr (Some e)"
      by (auto simp: entries_of_set)
    from v' have "fst e = field_value (name r')" by (auto simp: visit_Some_iff)
    with names m' k have "k' = k" by auto
    with dist m' assms(3) have "r' = r" by (metis eq_key_imp_eq_value)
    with v' x show "x \<noteq> None" by simp
  next
    assume "x \<noteq> None"
    then obtain e where e: "visit days today r = Inr (Some e)" using x by auto
    then have "fst e = field_value (name r)" by (auto simp: visit_Some_iff)
    with names assms(3) have "fst e = k" by auto
    moreover from e assms(3) res have "e \<in> set res" by (auto simp: entries_of_set)
    ultimately show "k \<in> fst ` set res" by force
  qed
  also have "\<dots> \<longleftrightarrow> included today days r" using visit_Inr_included [OF x] .
  also have "\<dots> \<longleftrightarrow> (\<exists>b occ limit. birthday r = Some b \<and>
              candidate_occurrence today (field_value b) = Inr occ \<and>
              date_add today days = Inr limit \<and> date_le today occ \<and> date_le occ limit)"
    by (auto simp: included_def in_window_def split: option.splits sum.splits)
  finally show ?thesis by auto
qed

lemmas upcoming_eval =
  upcoming_def visit_def candidate_occurrence_def in_window_def included_def reported_def
  calendar_defs Let_def Name_def

theorem weekend_shift_reported_only_witness:
  "upcoming [(''ann'', \<lparr>name = Name ''ann'', phones = [], birthday = Some (Field (Date 1990 6 15))\<rparr>)]
     5 (Date 2024 6 10) = Inr [(''ann'', Date 2024 6 17)] \<and>
   included (Date 2024 6 10) 5
     \<lparr>name = Name ''ann'', phones = [], birthday = Some (Field (Date 1990 6 15))\<rparr> \<and>
   date_add (Date 2024 6 10) 5 = Inr (Date 2024 6 15) \<and>
   (\<exists>occ d. candidate_occurrence (Date 2024 6 10) (Date 1990 6 15) = Inr occ \<and>
      in_window (Date 2024 6 10) 5 occ \<and> (''ann'', d) \<in> set [(''ann'', Date 2024 6 17)] \<and>
      (weekday occ = 5 \<longrightarrow> date_add occ 2 = Inr d)) \<and>
   upcoming [(''ann'', \<lparr>name = Name ''ann'', phones = [], birthday = Some (Field (Date 1990 6 15))\<rparr>)]
     7 (Date 2024 6 10) = Inr [(''ann'', Date 2024 6 17)] \<and>
   get_upcoming_birthdays
     \<lparr>heap = [\<lparr>name = Name ''ann'', phones = [], birthday = Some (Field (Date 1990 6 15))\<rparr>],
      book = [(''ann'', 0)]\<rparr> 7 (Date 2024 6 10)
     = Inr [''Contact name: ann, birthday: 17.06.2024'']"
proof -
  let ?ann = "\<lparr>name = Name ''ann'', phones = [], birthday = Some (Field (Date 1990 6 15))\<rparr>"
  have ret: "upcoming [(''ann'', ?ann)] 5 (Date 2024 6 10) = Inr [(''ann'', Date 2024 6 17)]"
    by (simp add: upcoming_eval)
  have inc: "included (Date 2024 6 10) 5 ?ann"
    by (simp add: upcoming_eval)
  have lim: "date_add (Date 2024 6 10) 5 = Inr (Date 2024 6 15)"
    by (simp add: upcoming_eval)
  note inst = weekend_shift_reported_only [of "[(''ann'', ?ann)]" 5 "Date 2024 6 10"
      "[(''ann'', Date 2024 6 17)]" "''ann''" ?ann ?ann "Field (Date 1990 6 15)" "''ann''"
      "[(''ann'', ?ann)]" "[(''ann'', Date 2024 6 17)]"]
  from inst ret inc have g: "\<exists>occ d. candidate_occurrence (Date 2024 6 10) (Date 1990 6 15) = Inr occ \<and>
      in_window (Date 2024 6 10) 5 occ \<and> (''ann'', d) \<in> set [(''ann'', Date 2024 6 17)] \<and>
      (weekday occ = 5 \<longrightarrow> date_add occ 2 = Inr d)"
    by (auto simp: Name_def)
  from inst have ex: "upcoming [(''ann'', ?ann)] 7 (Date 2024 6 10) = Inr [(''ann'', Date 2024 6 17)]"
    by (simp add: Name_def)
  then have "get_upcoming_birthdays \<lparr>heap = [?ann], book = [(''ann'', 0)]\<rparr> 7 (Date 2024 6 10)
     = Inr [''Contact name: ann, birthday: 17.06.2024'']"
    by (simp add: get_upcoming_birthdays_def contents_def line_of_def strftime_dmY_def
        dec2_def decimal_def digit_char_def)
  with ret inc lim g ex show ?thesis by blast
qed


theorem included_iff_in_window_witness:
  "book_ok \<lparr>heap = [\<lparr>name = Name ''ann'', phones = [], birthday = Some (Field (Date 1990 6 12))\<rparr>,
                    \<lparr>name = Name ''bob'', phones = [], birthday = Some (Field (Date 1985 1 1))\<rparr>,
                    \<lparr>name = Name ''cy'', phones = [], birthday = None\<rparr>],
            book = [(''ann'', 0), (''bob'', 1), (''cy'', 2)]\<rparr> \<and>
   upcoming (contents \<lparr>heap = [\<lparr>name = Name ''ann'', phones = [], birthday = Some (Field (Date 1990 6 12))\<rparr>,
                    \<lparr>name = Name ''bob'', phones = [], birthday = Some (Field (Date 1985 1 1))\<rparr>,
                    \<lparr>name = Name ''cy'', phones = [], birthday = None\<rparr>],
            book = [(''ann'', 0), (''bob'', 1), (''cy'', 2)]\<rparr>) 7 (Date 2024 6 10)
     = Inr [(''ann'', Date 2024 6 12)] \<and>
   candidate_occurrence (Date 2024 6 10) (Date 1990 6 12) = Inr (Date 2024 6 12) \<and>
   candidate_occurrence (Date 2024 6 10) (Date 1985 1 1) = Inr (Date 2025 1 1) \<and>
   date_add (Date 2024 6 10) 7 = Inr (Date 2024 6 17) \<and>
   \<not> (\<exists>b occ limit.
        birthday \<lparr>name = Name ''bob'', phones = [], birthday = Some (Field (Date 1985 1 1))\<rparr> = Some b \<and>
        candidate_occurrence (Date 2024 6 10) (field_value b) = Inr occ \<and>
        date_add (Date 2024 6 10) 7 = Inr limit \<and> date_le (Date 2024 6 10) occ \<and>
        date_le occ limit)"
proof -
  let ?ann = "\<lparr>name = Name ''ann'', phones = [], birthday = Some (Field (Date 1990 6 12))\<rparr>"
  let ?bob = "\<lparr>name = Name ''bob'', phones = [], birthday = Some (Field (Date 1985 1 1))\<rparr>"
  let ?cy = "\<lparr>name = Name ''cy'', phones = [], birthday = None\<rparr>"
  let ?w = "\<lparr>heap = [?ann, ?bob, ?cy], book = [(''ann'', 0), (''bob'', 1), (''cy'', 2)]\<rparr>"
  have c: "contents ?w = [(''ann'', ?ann), (''bob'', ?bob), (''cy'', ?cy)]"
    by (simp add: contents_def)
  have ok: "book_ok ?w"
    by (simp add: book_ok_def keys_are_names_def contents_def Name_def)
  have ret: "upcoming (contents ?w) 7 (Date 2024 6 10) = Inr [(''ann'', Date 2024 6 12)]"
    unfolding c by (simp add: upcoming_eval)
  have o1: "candidate_occurrence (Date 2024 6 10) (Date 1990 6 12) = Inr (Date 2024 6 12)"
    by (simp add: upcoming_eval)
  have o2: "candidate_occurrence (Date 2024 6 10) (Date 1985 1 1) = Inr (Date 2025 1 1)"
    by (simp add: upcoming_eval)
  have lim: "date_add (Date 2024 6 10) 7 = Inr (Date 2024 6 17)"
    by (simp add: upcoming_eval)
  have m: "(''bob'', ?bob) \<in> set (contents ?w)"
    unfolding c by simp
  from included_iff_in_window [OF ok ret m]
  have "\<not> (\<exists>b occ limit. birthday ?bob = Some b \<and>
        candidate_occurrence (Date 2024 6 10) (field_value b) = Inr occ \<and>
        date_add (Date 2024 6 10) 7 = Inr limit \<and> date_le (Date 2024 6 10) occ \<and>
        date_le occ limit)"
    by simp
  with ok ret o1 o2 lim show ?thesis by blast
qed

text \<open>
  C2 as stated fails: with a 29 February birthday in the book, in 2025, the call raises,
  so that the contact whose occurrence 2025-06-12 lies in the window of 7 days from
  2025-06-10 is in no result.
\<close>

theorem included_iff_in_window_counterexample:
  "is_ValueError
     (upcoming [(''bob'', \<lparr>name = Name ''bob'', phones = [], birthday = Some (Field (Date 2000 2 29))\<rparr>),
                (''ann'', \<lparr>name = Name ''ann'', phones = [], birthday = Some (Field (Date 1990 6 12))\<rparr>)]
        7 (Date 2025 6 10)) \<and>
   candidate_occurrence (Date 2025 6 10) (Date 1990 6 12) = Inr (Date 2025 6 12) \<and>
   date_add (Date 2025 6 10) 7 = Inr (Date 2025 6 17) \<and>
   date_le (Date 2025 6 10) (Date 2025 6 12) \<and> date_le (Date 2025 6 12) (Date 2025 6 17)"
  by (simp add: upcoming_eval is_ValueError_def)

theorem result_in_book_order_witness:
  "upcoming [(''bob'', \<lparr>name = Name ''bob'', phones = [], birthday = Some (Field (Date 1985 6 14))\<rparr>),
             (''cy'', \<lparr>name = Name ''cy'', phones = [], birthday = None\<rparr>),
             (''ann'', \<lparr>name = Name ''ann'', phones = [], birthday = Some (Field (Date 1990 6 12))\<rparr>)]
      7 (Date 2024 6 10) = Inr [(''bob'', Date 2024 6 14), (''ann'', Date 2024 6 12)] \<and>
   date_lt (Date 2024 6 12) (Date 2024 6 14) \<and>
   map (\<lambda>(k, r). field_value (name r))
     (filter (\<lambda>(k, r). included (Date 2024 6 10) 7 r)
        [(''bob'', \<lparr>name = Name ''bob'', phones = [], birthday = Some (Field (Date 1985 6 14))\<rparr>),
         (''cy'', \<lparr>name = Name ''cy'', phones = [], birthday = None\<rparr>),
         (''ann'', \<lparr>name = Name ''ann'', phones = [], birthday = Some (Field (Date 1990 6 12))\<rparr>)])
     = [''bob'', ''ann'']"
proof -
  let ?bob = "\<lparr>name = Name ''bob'', phones = [], birthday = Some (Field (Date 1985 6 14))\<rparr>"
  let ?cy = "\<lparr>name = Name ''cy'', phones = [], birthday = None\<rparr>"
  let ?ann = "\<lparr>name = Name ''ann'', phones = [], birthday = Some (Field (Date 1990 6 12))\<rparr>"
  have ret: "upcoming [(''bob'', ?bob), (''cy'', ?cy), (''ann'', ?ann)] 7 (Date 2024 6 10)
      = Inr [(''bob'', Date 2024 6 14), (''ann'', Date 2024 6 12)]"
    by (simp add: upcoming_eval)
  have lt: "date_lt (Date 2024 6 12) (Date 2024 6 14)" by (simp add: date_lt_def)
  from result_in_book_order [OF ret]
  have "map (\<lambda>(k, r). field_value (name r))
     (filter (\<lambda>(k, r). included (Date 2024 6 10) 7 r)
        [(''bob'', ?bob), (''cy'', ?cy), (''ann'', ?ann)]) = [''bob'', ''ann'']"
    by simp
  with ret lt show ?thesis by blast
qed


section \<open>The invariant of the book\<close>

lemma keys_are_names_book:
  "keys_are_names w \<longleftrightarrow> (\<forall>(k, a) \<in> set (book w). field_value (name (heap w ! a)) = k)"
  by (auto simp: keys_are_names_def contents_def)

lemma add_phone_name: "add_phone r p = Inr r' \<Longrightarrow> name r' = name r"
  by (auto simp: add_phone_def split: sum.splits)

lemma remove_phone_name: "remove_phone r p = Inr r' \<Longrightarrow> name r' = name r"
  by (auto simp: remove_phone_def split: option.splits)

lemma add_birthday_name: "add_birthday r b = Inr r' \<Longrightarrow> name r' = name r"
  by (auto simp: add_birthday_def split: sum.splits)

lemma edit_phone_name: "name (fst (edit_phone r old new)) = name r"
  by (simp add: edit_phone_cases)

lemma name_list_update:
  "name r' = name (xs ! a) \<Longrightarrow> name (xs[a := r'] ! i) = name (xs ! i)"
  by (cases "a < length xs") (auto simp: nth_list_update list_update_beyond)

lemma call_method_heap:
  assumes "\<And>r r'. m r = Inr r' \<Longrightarrow> name r' = name r"
  shows "book (fst (call_method w a m)) = book w \<and>
         length (heap (fst (call_method w a m))) = length (heap w) \<and>
         (\<forall>i. name (heap (fst (call_method w a m)) ! i) = name (heap w ! i))"
proof (cases "m (heap w ! a)")
  case (Inl e)
  then show ?thesis by (simp add: call_method_def)
next
  case (Inr r')
  with assms have "name r' = name (heap w ! a)" by simp
  with Inr show ?thesis
    by (simp add: call_method_def name_list_update)
qed

text \<open>A call changes neither the number of the objects that exist nor the name of any.\<close>

lemma exec_names:
  "length (heap w) \<le> length (heap (fst (exec c w))) \<and>
   (\<forall>i < length (heap w). name (heap (fst (exec c w)) ! i) = name (heap w ! i))"
proof (cases c)
  case (New_Record nm)
  then show ?thesis by (simp add: nth_append)
next
  case (Add_phone a p)
  then show ?thesis using call_method_heap [of "\<lambda>r. add_phone r p" w a]
    by (simp add: add_phone_name)
next
  case (Remove_phone a p)
  then show ?thesis using call_method_heap [of "\<lambda>r. remove_phone r p" w a]
    by (simp add: remove_phone_name)
next
  case (Edit_phone a old new)
  have "name (fst (edit_phone (heap w ! a) old new)) = name (heap w ! a)"
    by (rule edit_phone_name)
  with Edit_phone show ?thesis
    by (cases "edit_phone (heap w ! a) old new") (simp add: name_list_update)
next
  case (Add_birthday a b)
  then show ?thesis using call_method_heap [of "\<lambda>r. add_birthday r b" w a]
    by (simp add: add_birthday_name)
next
  case (Set_phones_empty a)
  then show ?thesis by (simp add: name_list_update)
next
  case (Add_record a)
  then show ?thesis by (simp add: add_record_def)
next
  case (Delete nm)
  then show ?thesis by (simp add: delete_def)
qed

lemma set_update_subset: "set (AList.update k v al) \<subseteq> insert (k, v) (set al)"
  by (induction al) auto

lemma exec_book:
  "book (fst (exec c w)) =
     (case c of
        Add_record a \<Rightarrow> AList.update (field_value (name (heap w ! a))) a (book w)
      | Delete nm \<Rightarrow> AList.delete nm (book w)
      | _ \<Rightarrow> book w)"
proof (cases c)
  case (Add_phone a p)
  then show ?thesis using call_method_heap [of "\<lambda>r. add_phone r p" w a]
    by (simp add: add_phone_name)
next
  case (Remove_phone a p)
  then show ?thesis using call_method_heap [of "\<lambda>r. remove_phone r p" w a]
    by (simp add: remove_phone_name)
next
  case (Edit_phone a old new)
  then show ?thesis by (cases "edit_phone (heap w ! a) old new") simp
next
  case (Add_birthday a b)
  then show ?thesis using call_method_heap [of "\<lambda>r. add_birthday r b" w a]
    by (simp add: add_birthday_name)
next
  case (Delete nm)
  then show ?thesis by (auto simp: delete_def)
qed (simp_all add: add_record_def)

lemma exec_book_ok:
  assumes "book_ok w" and "call_ok w c"
  shows "book_ok (fst (exec c w))"
proof -
  let ?w' = "fst (exec c w)"
  from assms(1) have dist: "distinct (map fst (book w))"
    and addr: "\<forall>(k, a) \<in> set (book w). a < length (heap w)"
    and names: "\<forall>(k, a) \<in> set (book w). field_value (name (heap w ! a)) = k"
    by (simp_all add: book_ok_def keys_are_names_book)
  from exec_names [of w c] have len: "length (heap w) \<le> length (heap ?w')"
    and same: "\<forall>i < length (heap w). name (heap ?w' ! i) = name (heap w ! i)"
    by simp_all
  have sub: "set (book ?w') \<subseteq> set (book w) \<or>
      (\<exists>a. c = Add_record a \<and>
         set (book ?w') \<subseteq> insert (field_value (name (heap w ! a)), a) (set (book w)))"
    unfolding exec_book using set_update_subset [of _ _ "book w"]
    by (cases c) (auto simp: AList.delete_eq)
  have d': "distinct (map fst (book ?w'))"
    unfolding exec_book using dist
    by (cases c) (simp_all add: distinct_update distinct_delete)
  have old: "a < length (heap ?w') \<and> field_value (name (heap ?w' ! a)) = k"
    if "(k, a) \<in> set (book w)" for k a
    using that addr names len same by fastforce
  have new: "a < length (heap ?w') \<and> field_value (name (heap ?w' ! a)) = k"
    if "(k, a) \<in> set (book ?w')" for k a
  proof (cases "(k, a) \<in> set (book w)")
    case True
    then show ?thesis by (rule old)
  next
    case False
    with sub that obtain a' where c: "c = Add_record a'"
      and "(k, a) = (field_value (name (heap w ! a')), a')" by auto
    then have "a = a'" and k: "k = field_value (name (heap w ! a))" by simp_all
    with c assms(2) have "a < length (heap w)" by simp
    with len same k show ?thesis by simp
  qed
  from d' new show ?thesis
    by (auto simp: book_ok_def keys_are_names_book)
qed

lemma reachable_book_ok: "reachable w \<Longrightarrow> book_ok w"
proof (induction rule: reachable.induct)
  case init
  show ?case by (simp add: book_ok_def keys_are_names_def contents_def)
next
  case (step w c)
  then show ?case by (simp add: exec_book_ok)
qed

text \<open>
  C8. In every world that the calls can reach, every key of the book is the name of the
  record it leads to (and no key occurs twice), and every call keeps it so: no call
  changes the name of an object that exists.
\<close>

theorem keys_are_names_invariant:
  "reachable w \<Longrightarrow>
     keys_are_names w \<and> distinct (map fst (book w)) \<and>
     (\<forall>c. call_ok w c \<longrightarrow>
        keys_are_names (fst (exec c w)) \<and>
        (\<forall>i < length (heap w). name (heap (fst (exec c w)) ! i) = name (heap w ! i)))"
  using reachable_book_ok [of w] exec_book_ok [of w] exec_names [of w]
  by (simp add: book_ok_def)


theorem keys_are_names_invariant_witness:
  "reachable \<lparr>heap = [\<lparr>name = Field ''ann'', phones = [Field ''1111111111''], birthday = None\<rparr>,
                      \<lparr>name = Field ''bob'', phones = [], birthday = None\<rparr>],
              book = [(''ann'', 0), (''bob'', 1)]\<rparr> \<and>
   keys_are_names \<lparr>heap = [\<lparr>name = Field ''ann'', phones = [Field ''1111111111''], birthday = None\<rparr>,
                      \<lparr>name = Field ''bob'', phones = [], birthday = None\<rparr>],
              book = [(''ann'', 0), (''bob'', 1)]\<rparr> \<and>
   call_ok \<lparr>heap = [\<lparr>name = Field ''ann'', phones = [Field ''1111111111''], birthday = None\<rparr>,
                      \<lparr>name = Field ''bob'', phones = [], birthday = None\<rparr>],
              book = [(''ann'', 0), (''bob'', 1)]\<rparr> (Edit_phone 0 ''1111111111'' ''12345'') \<and>
   keys_are_names \<lparr>heap = [\<lparr>name = Field ''ann'', phones = [], birthday = None\<rparr>,
                      \<lparr>name = Field ''bob'', phones = [], birthday = None\<rparr>],
              book = [(''ann'', 0), (''bob'', 1)]\<rparr>"
proof -
  let ?plain = "\<lparr>name = Field ''ann'', phones = [], birthday = None\<rparr>"
  let ?ann = "\<lparr>name = Field ''ann'', phones = [Field ''1111111111''], birthday = None\<rparr>"
  let ?bob = "\<lparr>name = Field ''bob'', phones = [], birthday = None\<rparr>"
  have r0: "reachable \<lparr>heap = [], book = []\<rparr>" by (rule reachable.init)
  from reachable.step [OF r0, of "New_Record ''ann''"]
  have r1: "reachable \<lparr>heap = [?plain], book = []\<rparr>"
    by (simp add: Record_init_def Name_def)
  from reachable.step [OF r1, of "Add_record 0"]
  have r2: "reachable \<lparr>heap = [?plain], book = [(''ann'', 0)]\<rparr>"
    by (simp add: add_record_def)
  from reachable.step [OF r2, of "Add_phone 0 ''1111111111''"]
  have r3: "reachable \<lparr>heap = [?ann], book = [(''ann'', 0)]\<rparr>"
    by (simp add: call_method_def add_phone_def Phone_def isdigit_def isdigit_char_def)
  from reachable.step [OF r3, of "New_Record ''bob''"]
  have r4: "reachable \<lparr>heap = [?ann, ?bob], book = [(''ann'', 0)]\<rparr>"
    by (simp add: Record_init_def Name_def)
  from reachable.step [OF r4, of "Add_record 1"]
  have r5: "reachable \<lparr>heap = [?ann, ?bob], book = [(''ann'', 0), (''bob'', 1)]\<rparr>"
    by (simp add: add_record_def)
  have ok: "call_ok \<lparr>heap = [?ann, ?bob], book = [(''ann'', 0), (''bob'', 1)]\<rparr>
      (Edit_phone 0 ''1111111111'' ''12345'')"
    by simp
  have ex: "fst (exec (Edit_phone 0 ''1111111111'' ''12345'')
        \<lparr>heap = [?ann, ?bob], book = [(''ann'', 0), (''bob'', 1)]\<rparr>)
      = \<lparr>heap = [?plain, ?bob], book = [(''ann'', 0), (''bob'', 1)]\<rparr>"
    by (simp add: edit_phone_cases)
  from keys_are_names_invariant [OF r5] ok ex
  have "keys_are_names \<lparr>heap = [?ann, ?bob], book = [(''ann'', 0), (''bob'', 1)]\<rparr> \<and>
    keys_are_names \<lparr>heap = [?plain, ?bob], book = [(''ann'', 0), (''bob'', 1)]\<rparr>"
    by (metis (no_types, lifting))
  with r5 ok show ?thesis by blast
qed


section \<open>Calendar arithmetic\<close>

text \<open>
  The conversions between dates and ordinals are inverse to each other on the range of
  dates, and the order of dates is the order of their ordinals.
\<close>

lemma month_cases:
  "1 \<le> m \<Longrightarrow> m \<le> 12 \<Longrightarrow>
   m = 1 \<or> m = 2 \<or> m = 3 \<or> m = 4 \<or> m = 5 \<or> m = 6 \<or> m = 7 \<or> m = 8 \<or> m = 9 \<or>
   m = 10 \<or> m = 11 \<or> m = (12::int)"
  by arith

lemmas month_tables = days_in_month_def days_before_month_def DAYS_IN_MONTH_def DAYS_BEFORE_MONTH_def

lemma day_of_year_bounds:
  assumes "1 \<le> m" "m \<le> 12" "1 \<le> d" "d \<le> days_in_month y m"
  shows "1 \<le> days_before_month y m + d"
    and "days_before_month y m + d \<le> 365 + (if is_leap y then 1 else 0)"
  using month_cases [OF assms(1,2)] assms(3,4)
  by (auto simp: month_tables)

lemma day_of_year_mono:
  assumes "1 \<le> m" "m < m'" "m' \<le> 12" "d \<le> days_in_month y m" "1 \<le> d'"
  shows "days_before_month y m + d < days_before_month y m' + d'"
proof -
  have step: "days_before_month y k + days_in_month y k = days_before_month y (k + 1)"
    if "1 \<le> k" "k \<le> 11" for k
    using month_cases [of k] that by (auto simp: month_tables)
  have up: "days_before_month y k \<le> days_before_month y (k + int j)" if "1 \<le> k" "k + int j \<le> 12" for k j
    using that
  proof (induction j)
    case 0
    then show ?case by simp
  next
    case (Suc j)
    then have le: "days_before_month y k \<le> days_before_month y (k + int j)" by simp
    from Suc.prems have r: "1 \<le> k + int j" "k + int j \<le> 11" by simp_all
    have "0 \<le> days_in_month y (k + int j)"
      using month_cases [of "k + int j"] r by (auto simp: month_tables)
    with step [OF r] le have "days_before_month y k \<le> days_before_month y (k + int j + 1)" by simp
    moreover have "k + int j + 1 = k + int (Suc j)" by simp
    ultimately show ?case by simp
  qed
  from assms have "1 \<le> m" "m \<le> 11" by simp_all
  from step [OF this] have "days_before_month y m + d \<le> days_before_month y (m + 1)"
    using assms(4) by simp
  also have "\<dots> \<le> days_before_month y (m + 1 + int (nat (m' - (m + 1))))"
    by (rule up) (use assms in simp_all)
  also have "m + 1 + int (nat (m' - (m + 1))) = m'" using assms by simp
  finally show ?thesis using assms(5) by simp
qed

lemma month_day_of_ok:
  assumes "0 \<le> n" "n < 365 + (if lp then 1 else 0)"
    and "month_day_of lp n = (m, d)"
  shows "1 \<le> m \<and> m \<le> 12 \<and> 1 \<le> d \<and>
         d \<le> (if m = 2 \<and> lp then 29 else DAYS_IN_MONTH ! nat m) \<and>
         DAYS_BEFORE_MONTH ! nat m + (if m > 2 \<and> lp then 1 else 0) + d = n + 1"
proof -
  define k where "k = (n + 50) div 32"
  have k: "32 * k \<le> n + 50" "n + 50 < 32 * k + 32"
    unfolding k_def by arith+
  with assms(1,2) have "1 \<le> k" "k \<le> 12" by (auto split: if_splits)
  from month_cases [OF this] show ?thesis
    using assms k unfolding month_day_of_def Let_def k_def [symmetric]
    by (elim disjE) (auto simp: DAYS_IN_MONTH_def DAYS_BEFORE_MONTH_def split: if_splits)
qed

lemma div_step:
  assumes "0 < k"
  shows "(y::int) div k = (y - 1) div k + (if y mod k = 0 then 1 else 0)"
proof -
  define q where "q = (y - 1) div k"
  define r where "r = (y - 1) mod k"
  have y: "y - 1 = k * q + r" and r: "0 \<le> r" "r < k"
    using assms by (simp_all add: q_def r_def)
  show ?thesis
  proof (cases "r = k - 1")
    case True
    with y have "y = k * (q + 1)" by (simp add: algebra_simps)
    then have "y div k = q + 1" "y mod k = 0"
      using assms by simp_all
    then show ?thesis by (simp add: q_def)
  next
    case False
    with r have r': "0 \<le> r + 1" "r + 1 < k" by simp_all
    from y have "y = k * q + (r + 1)" by simp
    with r' assms have "y div k = q" "y mod k = r + 1"
      by simp_all
    with r show ?thesis by (simp add: q_def)
  qed
qed

lemma mod400_100: "(y::int) mod 400 = 0 \<Longrightarrow> y mod 100 = 0"
  by presburger

lemma mod100_4: "(y::int) mod 100 = 0 \<Longrightarrow> y mod 4 = 0"
  by presburger

lemma leap_indicator:
  "(if (y::int) mod 4 = 0 then 1 else 0) - (if y mod 100 = 0 then 1 else 0)
         + (if y mod 400 = 0 then 1 else 0) = (if is_leap y then 1 else (0::int))"
proof (cases "y mod 400 = 0")
  case True
  then have "y mod 100 = 0" by (rule mod400_100)
  moreover from this have "y mod 4 = 0" by (rule mod100_4)
  ultimately show ?thesis using True by (simp add: is_leap_def)
next
  case n400: False
  show ?thesis
  proof (cases "y mod 100 = 0")
    case True
    then have "y mod 4 = 0" by (rule mod100_4)
    with True n400 show ?thesis by (simp add: is_leap_def)
  next
    case False
    with n400 show ?thesis by (simp add: is_leap_def)
  qed
qed

lemma days_before_year_Suc:
  "days_before_year (y + 1) = days_before_year y + 365 + (if is_leap y then 1 else 0)"
proof -
  define p4 where "p4 = (y - 1) div 4"
  define p100 where "p100 = (y - 1) div 100"
  define p400 where "p400 = (y - 1) div 400"
  define i4 :: int where "i4 = (if y mod 4 = 0 then 1 else 0)"
  define i100 :: int where "i100 = (if y mod 100 = 0 then 1 else 0)"
  define i400 :: int where "i400 = (if y mod 400 = 0 then 1 else 0)"
  have s4: "y div 4 = p4 + i4" unfolding p4_def i4_def by (rule div_step) simp
  have s100: "y div 100 = p100 + i100" unfolding p100_def i100_def by (rule div_step) simp
  have s400: "y div 400 = p400 + i400" unfolding p400_def i400_def by (rule div_step) simp
  have l: "i4 - i100 + i400 = (if is_leap y then 1 else 0)"
    unfolding i4_def i100_def i400_def by (rule leap_indicator)
  have "days_before_year (y + 1) = y * 365 + (p4 + i4) - (p100 + i100) + (p400 + i400)"
    unfolding days_before_year_def Let_def s4 [symmetric] s100 [symmetric] s400 [symmetric]
    by simp
  moreover have "days_before_year y = (y - 1) * 365 + p4 - p100 + p400"
    unfolding days_before_year_def Let_def p4_def p100_def p400_def by simp
  ultimately show ?thesis using l by (simp add: algebra_simps)
qed

lemma days_before_year_mono_nat:
  "days_before_year y \<le> days_before_year (y + int k)"
proof (induction k)
  case 0
  then show ?case by simp
next
  case (Suc k)
  have "days_before_year (y + int k) \<le> days_before_year (y + int k + 1)"
    by (simp add: days_before_year_Suc)
  also have "y + int k + 1 = y + int (Suc k)" by simp
  finally show ?case using Suc by simp
qed

lemma days_before_year_mono: "y \<le> y' \<Longrightarrow> days_before_year y \<le> days_before_year y'"
  using days_before_year_mono_nat [of y "nat (y' - y)"] by simp

lemma days_before_year_decomp:
  assumes "0 \<le> b" "b \<le> 3" "0 \<le> c" "c \<le> 24" "0 \<le> e" "e \<le> 3"
  shows "days_before_year (400 * a + 100 * b + 4 * c + e + 1)
           = 146097 * a + 36524 * b + 1461 * c + 365 * e"
proof -
  have d4: "(400 * a + 100 * b + 4 * c + e) div 4 = 100 * a + 25 * b + c"
    using assms by arith
  have d100: "(400 * a + 100 * b + 4 * c + e) div 100 = 4 * a + b"
    using assms by arith
  have d400: "(400 * a + 100 * b + 4 * c + e) div 400 = a"
    using assms by arith
  show ?thesis
    unfolding days_before_year_def Let_def by (simp add: d4 d100 d400)
qed

lemma mod_eq_0_small:
  assumes "0 < x" "x \<le> k"
  shows "(x::int) mod k = 0 \<longleftrightarrow> x = k"
proof (cases "x = k")
  case True
  then show ?thesis by simp
next
  case False
  with assms have "x mod k = x" by simp
  with assms False show ?thesis by simp
qed

lemma is_leap_decomp:
  assumes "0 \<le> b" "b \<le> 3" "0 \<le> c" "c \<le> 24" "0 \<le> e" "e \<le> 3"
  shows "is_leap (400 * a + 100 * b + 4 * c + e + 1) \<longleftrightarrow> (e = 3 \<and> (c \<noteq> 24 \<or> b = 3))"
proof -
  let ?y = "400 * a + 100 * b + 4 * c + e + 1"
  have e4: "?y = 4 * (100 * a + 25 * b + c) + (e + 1)" by simp
  have "?y mod 4 = (e + 1) mod 4" unfolding e4 by (rule mod_mult_self4)
  then have "?y mod 4 = 0 \<longleftrightarrow> (e + 1) mod 4 = 0" by (rule arg_cong)
  also have "\<dots> \<longleftrightarrow> e + 1 = 4" using assms by (intro mod_eq_0_small) simp_all
  finally have m4: "?y mod 4 = 0 \<longleftrightarrow> e = 3" by simp
  have e100: "?y = 100 * (4 * a + b) + (4 * c + e + 1)" by simp
  have "?y mod 100 = (4 * c + e + 1) mod 100" unfolding e100 by (rule mod_mult_self4)
  then have "?y mod 100 = 0 \<longleftrightarrow> (4 * c + e + 1) mod 100 = 0" by (rule arg_cong)
  also have "\<dots> \<longleftrightarrow> 4 * c + e + 1 = 100" using assms by (intro mod_eq_0_small) simp_all
  also have "\<dots> \<longleftrightarrow> e = 3 \<and> c = 24" using assms by linarith
  finally have m100: "?y mod 100 = 0 \<longleftrightarrow> e = 3 \<and> c = 24" .
  have e400: "?y = 400 * a + (100 * b + 4 * c + e + 1)" by simp
  have "?y mod 400 = (100 * b + 4 * c + e + 1) mod 400" unfolding e400 by (rule mod_mult_self4)
  then have "?y mod 400 = 0 \<longleftrightarrow> (100 * b + 4 * c + e + 1) mod 400 = 0" by (rule arg_cong)
  also have "\<dots> \<longleftrightarrow> 100 * b + 4 * c + e + 1 = 400" using assms by (intro mod_eq_0_small) simp_all
  also have "\<dots> \<longleftrightarrow> e = 3 \<and> c = 24 \<and> b = 3" using assms by linarith
  finally have m400: "?y mod 400 = 0 \<longleftrightarrow> e = 3 \<and> c = 24 \<and> b = 3" .
  show ?thesis unfolding is_leap_def m4 m100 m400 by auto
qed

lemma ord2ymd_ok:
  assumes "1 \<le> n" "n \<le> MAXORDINAL"
  shows "\<exists>y m d. ord2ymd n = (y, m, d) \<and> MINYEAR \<le> y \<and> y \<le> MAXYEAR \<and>
           1 \<le> m \<and> m \<le> 12 \<and> 1 \<le> d \<and> d \<le> days_in_month y m \<and> ymd2ord y m d = n"
proof -
  define n' where "n' = n - 1"
  define a where "a = n' div 146097"
  define r1 where "r1 = n' mod 146097"
  define b where "b = r1 div 36524"
  define r2 where "r2 = r1 mod 36524"
  define c where "c = r2 div 1461"
  define r3 where "r3 = r2 mod 1461"
  define e where "e = r3 div 365"
  define r4 where "r4 = r3 mod 365"
  have n': "0 \<le> n'" "n' \<le> 3652058" using assms by (simp_all add: n'_def MAXORDINAL_def)
  have e1: "n' = 146097 * a + r1" and b1: "0 \<le> r1" "r1 < 146097"
    by (simp_all add: a_def r1_def)
  have e2: "r1 = 36524 * b + r2" and b2: "0 \<le> r2" "r2 < 36524"
    by (simp_all add: b_def r2_def)
  have e3: "r2 = 1461 * c + r3" and b3: "0 \<le> r3" "r3 < 1461"
    by (simp_all add: c_def r3_def)
  have e4: "r3 = 365 * e + r4" and b4: "0 \<le> r4" "r4 < 365"
    by (simp_all add: e_def r4_def)
  have a: "0 \<le> a" using e1 b1 n' by linarith
  have b: "0 \<le> b" "b \<le> 4" using e2 b1 b2 by linarith+
  have c: "0 \<le> c" "c \<le> 24" using e3 b2 b3 by linarith+
  have e: "0 \<le> e" "e \<le> 4" using e4 b3 b4 by linarith+
  have DI: "DI400Y = 146097" "DI100Y = 36524" "DI4Y = 1461"
    by (simp_all add: DI400Y_def DI100Y_def DI4Y_def days_before_year_def)
  define yr where "yr = a * 400 + 1 + (b * 100 + c * 4 + e)"
  have unfold: "ord2ymd n =
      (if e = 4 \<or> b = 4 then (yr - 1, 12, 31)
       else (let leapyear = (e = 3 \<and> (c \<noteq> 24 \<or> b = 3)); (m, d) = month_day_of leapyear r4
             in (yr, m, d)))"
    unfolding ord2ymd_def Let_def DI yr_def e_def r4_def c_def r3_def b_def r2_def a_def r1_def n'_def
    by simp
  have upper: "y \<le> MAXYEAR" if "days_before_year y \<le> n'" for y
  proof (rule ccontr)
    assume "\<not> y \<le> MAXYEAR"
    then have "10000 \<le> y" by (simp add: MAXYEAR_def)
    from days_before_year_mono [OF this] have "3652059 \<le> days_before_year y"
      by (simp add: days_before_year_def)
    with that n' show False by simp
  qed
  show ?thesis
  proof (cases "e = 4 \<or> b = 4")
    case True
    then have res: "ord2ymd n = (yr - 1, 12, 31)" by (simp add: unfold)
    have "\<exists>b' c'. 0 \<le> b' \<and> b' \<le> 3 \<and> 0 \<le> c' \<and> c' \<le> 24 \<and> (c' \<noteq> 24 \<or> b' = 3) \<and>
        yr - 1 = 400 * a + 100 * b' + 4 * c' + 3 + 1 \<and>
        n' = 146097 * a + 36524 * b' + 1461 * c' + 365 * 3 + 365"
    proof (cases "b = 4")
      case True
      with e1 e2 e3 e4 b1 b2 b3 b4 c e have "r2 = 0" "c = 0" "e = 0" "r4 = 0" by linarith+
      with True e1 e2 e3 e4 show ?thesis
        by (intro exI [of _ 3] exI [of _ 24]) (simp add: yr_def)
    next
      case False
      with True have e4': "e = 4" by simp
      with e4 b3 b4 have r4: "r4 = 0" by linarith
      from e4' e3 e4 b2 b3 r4 c have c23: "c \<le> 23" by linarith
      from False b have "b \<le> 3" by simp
      with e4' r4 c23 c b e1 e2 e3 e4 show ?thesis
        by (intro exI [of _ b] exI [of _ c]) (simp add: yr_def)
    qed
    then obtain b' c' where bc: "0 \<le> b'" "b' \<le> 3" "0 \<le> c'" "c' \<le> 24" "c' \<noteq> 24 \<or> b' = 3"
      and y: "yr - 1 = 400 * a + 100 * b' + 4 * c' + 3 + 1"
      and n'': "n' = 146097 * a + 36524 * b' + 1461 * c' + 365 * 3 + 365" by blast
    have dby: "days_before_year (yr - 1) = 146097 * a + 36524 * b' + 1461 * c' + 365 * 3"
      unfolding y by (rule days_before_year_decomp) (use bc in simp_all)
    have leap: "is_leap (yr - 1)"
      unfolding y using is_leap_decomp [of b' c' 3 a] bc by simp
    have ord: "ymd2ord (yr - 1) 12 31 = n"
      using dby leap n'' by (simp add: ymd2ord_def month_tables n'_def)
    have "days_before_year (yr - 1) \<le> n'" using dby n'' by simp
    then have "yr - 1 \<le> MAXYEAR" by (rule upper)
    moreover have "MINYEAR \<le> yr - 1" using y a bc by (simp add: MINYEAR_def)
    ultimately show ?thesis using res ord by (simp add: month_tables)
  next
    case False
    with b e have b3': "b \<le> 3" and e3': "e \<le> 3" by simp_all
    obtain m d where md: "month_day_of (e = 3 \<and> (c \<noteq> 24 \<or> b = 3)) r4 = (m, d)"
      by (cases "month_day_of (e = 3 \<and> (c \<noteq> 24 \<or> b = 3)) r4")
    with False have res: "ord2ymd n = (yr, m, d)" by (simp add: unfold)
    have y: "yr = 400 * a + 100 * b + 4 * c + e + 1" by (simp add: yr_def)
    have dby: "days_before_year yr = 146097 * a + 36524 * b + 1461 * c + 365 * e"
      unfolding y by (rule days_before_year_decomp) (use b c e b3' e3' in simp_all)
    have leap: "is_leap yr \<longleftrightarrow> (e = 3 \<and> (c \<noteq> 24 \<or> b = 3))"
      unfolding y by (rule is_leap_decomp) (use b c e b3' e3' in simp_all)
    have "r4 < 365 + (if (e = 3 \<and> (c \<noteq> 24 \<or> b = 3)) then 1 else 0)" using b4 by simp
    from month_day_of_ok [OF b4(1) this md]
    have m: "1 \<le> m" "m \<le> 12" and d: "1 \<le> d" "d \<le> days_in_month yr m"
      and doy: "days_before_month yr m + d = r4 + 1"
      unfolding days_in_month_def days_before_month_def leap by simp_all
    have ord: "ymd2ord yr m d = n"
      using dby doy e1 e2 e3 e4 by (simp add: ymd2ord_def n'_def)
    have "days_before_year yr \<le> n'" using dby e1 e2 e3 e4 b4 by simp
    then have "yr \<le> MAXYEAR" by (rule upper)
    moreover have "MINYEAR \<le> yr" using y a b c e by (simp add: MINYEAR_def)
    ultimately show ?thesis using res ord m d by simp
  qed
qed

lemma date_trichotomy: "date_lt a b \<or> a = b \<or> date_lt b a"
  by (cases a; cases b) (auto simp: date_lt_def)

lemma toordinal_strict_mono:
  assumes "valid_date a" "valid_date b" "date_lt a b"
  shows "toordinal a < toordinal b"
proof -
  from assms(1) have a: "1 \<le> month a" "month a \<le> 12" "1 \<le> day a"
    "day a \<le> days_in_month (year a) (month a)" by (simp_all add: valid_date_def)
  from assms(2) have b: "1 \<le> month b" "month b \<le> 12" "1 \<le> day b"
    "day b \<le> days_in_month (year b) (month b)" by (simp_all add: valid_date_def)
  consider "year a < year b" | "year a = year b" "month a < month b"
    | "year a = year b" "month a = month b" "day a < day b"
    using assms(3) by (auto simp: date_lt_def)
  then show ?thesis
  proof cases
    case 1
    have "toordinal a \<le> days_before_year (year a + 1)"
      using day_of_year_bounds(2) [OF a] by (simp add: toordinal_def ymd2ord_def days_before_year_Suc)
    also have "\<dots> \<le> days_before_year (year b)"
      by (rule days_before_year_mono) (use 1 in simp)
    also have "\<dots> < toordinal b"
      using day_of_year_bounds(1) [OF b] by (simp add: toordinal_def ymd2ord_def)
    finally show ?thesis .
  next
    case 2
    from day_of_year_mono [OF a(1) 2(2) b(2) a(4) b(3)] 2(1) show ?thesis
      by (simp add: toordinal_def ymd2ord_def)
  next
    case 3
    then show ?thesis by (simp add: toordinal_def ymd2ord_def)
  qed
qed

lemma date_lt_iff_toordinal:
  assumes "valid_date a" "valid_date b"
  shows "date_lt a b \<longleftrightarrow> toordinal a < toordinal b"
proof
  assume "date_lt a b"
  with assms show "toordinal a < toordinal b" by (rule toordinal_strict_mono)
next
  assume lt: "toordinal a < toordinal b"
  from date_trichotomy [of a b] show "date_lt a b"
  proof (elim disjE)
    assume "a = b"
    with lt show ?thesis by simp
  next
    assume "date_lt b a"
    from toordinal_strict_mono [OF assms(2,1) this] lt show ?thesis by simp
  qed
qed

lemma date_le_iff_toordinal:
  assumes "valid_date a" "valid_date b"
  shows "date_le a b \<longleftrightarrow> toordinal a \<le> toordinal b"
proof -
  have "date_le a b \<longleftrightarrow> \<not> date_lt b a"
    using date_trichotomy [of a b] by (cases a; cases b) (auto simp: date_le_def date_lt_def)
  with date_lt_iff_toordinal [OF assms(2,1)] show ?thesis by auto
qed

lemma toordinal_range:
  assumes "valid_date a"
  shows "1 \<le> toordinal a" and "toordinal a \<le> MAXORDINAL"
proof -
  from assms have a: "1 \<le> month a" "month a \<le> 12" "1 \<le> day a"
    "day a \<le> days_in_month (year a) (month a)" and y: "1 \<le> year a" "year a \<le> 9999"
    by (simp_all add: valid_date_def MINYEAR_def MAXYEAR_def)
  have "days_before_year 1 \<le> days_before_year (year a)"
    by (rule days_before_year_mono) (rule y)
  then show "1 \<le> toordinal a"
    using day_of_year_bounds(1) [OF a]
    by (simp add: toordinal_def ymd2ord_def days_before_year_def)
  have "toordinal a \<le> days_before_year (year a + 1)"
    using day_of_year_bounds(2) [OF a] by (simp add: toordinal_def ymd2ord_def days_before_year_Suc)
  also have "\<dots> \<le> days_before_year 10000"
    by (rule days_before_year_mono) (use y in simp)
  also have "\<dots> = MAXORDINAL" by (simp add: days_before_year_def MAXORDINAL_def)
  finally show "toordinal a \<le> MAXORDINAL" .
qed

lemma check_date_fields_Inr:
  "check_date_fields y m d = Inr dt \<longleftrightarrow> dt = Date y m d \<and> valid_date (Date y m d)"
  by (auto simp: check_date_fields_def valid_date_def)

lemma fromordinal_ok:
  assumes "1 \<le> n" "n \<le> MAXORDINAL"
  shows "\<exists>dt. fromordinal n = Inr dt \<and> valid_date dt \<and> toordinal dt = n"
proof -
  from ord2ymd_ok [OF assms] obtain y m d where "ord2ymd n = (y, m, d)"
    and "valid_date (Date y m d)" and "ymd2ord y m d = n"
    by (auto simp: valid_date_def)
  then show ?thesis
    by (simp add: fromordinal_def check_date_fields_Inr toordinal_def)
qed

lemma date_add_Inr:
  assumes "date_add a k = Inr dt"
  shows "valid_date dt" and "toordinal dt = toordinal a + k"
proof -
  from assms have r: "1 \<le> toordinal a + k" "toordinal a + k \<le> MAXORDINAL"
    and f: "fromordinal (toordinal a + k) = Inr dt"
    by (auto simp: date_add_def Let_def split: if_splits)
  from fromordinal_ok [OF r] f show "valid_date dt" and "toordinal dt = toordinal a + k"
    by auto
qed

lemma date_add_returns:
  "(\<exists>dt. date_add a k = Inr dt) \<longleftrightarrow> 0 < toordinal a + k \<and> toordinal a + k \<le> MAXORDINAL"
proof (cases "0 < toordinal a + k \<and> toordinal a + k \<le> MAXORDINAL")
  case True
  then have "1 \<le> toordinal a + k" "toordinal a + k \<le> MAXORDINAL" by simp_all
  from fromordinal_ok [OF this] True show ?thesis by (auto simp: date_add_def Let_def)
next
  case False
  then show ?thesis by (auto simp: date_add_def Let_def)
qed

lemma date_add_Inl: "date_add a k = Inl e \<Longrightarrow> e = OverflowError"
  using date_add_returns [of a k] by (auto simp: date_add_def Let_def split: if_splits)


section \<open>A negative window\<close>

lemma candidate_occurrence_Inr:
  assumes "candidate_occurrence today b = Inr occ"
  shows "valid_date occ" and "date_le today occ"
proof -
  from assms show "valid_date occ"
    by (auto simp: candidate_occurrence_def check_date_fields_Inr split: sum.splits if_splits)
  from assms consider "occ = Date (year today) (month b) (day b)" "\<not> date_lt occ today"
    | "occ = Date (year today + 1) (month b) (day b)"
    by (auto simp: candidate_occurrence_def check_date_fields_Inr split: sum.splits if_splits)
  then show "date_le today occ"
  proof cases
    case 1
    with date_trichotomy [of today occ] show ?thesis by (auto simp: date_le_def)
  next
    case 2
    then show ?thesis by (simp add: date_le_def date_lt_def)
  qed
qed

lemma not_in_window_negative:
  assumes "valid_date today" "days < 0" "candidate_occurrence today b = Inr occ"
  shows "\<not> in_window today days occ"
proof
  assume "in_window today days occ"
  then obtain limit where l: "date_add today days = Inr limit" and le: "date_le occ limit"
    by (auto simp: in_window_def split: sum.splits)
  from date_add_Inr [OF l] have vl: "valid_date limit"
    and ol: "toordinal limit = toordinal today + days" by simp_all
  from candidate_occurrence_Inr [OF assms(3)] have vo: "valid_date occ"
    and to: "date_le today occ" by simp_all
  from le vo vl have "toordinal occ \<le> toordinal limit" by (simp add: date_le_iff_toordinal)
  moreover from to assms(1) vo have "toordinal today \<le> toordinal occ"
    by (simp add: date_le_iff_toordinal)
  ultimately show False using ol assms(2) by simp
qed

lemma visit_negative:
  assumes "valid_date today" "days < 0"
  shows "visit days today r = Inr x \<longleftrightarrow>
     x = None \<and> (\<forall>b. birthday r = Some b \<longrightarrow>
        (\<exists>occ. candidate_occurrence today (field_value b) = Inr occ) \<and>
        0 < toordinal today + days)"
proof (cases "birthday r")
  case None
  then show ?thesis by (auto simp: visit_unfold)
next
  case (Some b)
  show ?thesis
  proof (cases "candidate_occurrence today (field_value b)")
    case (Inl e)
    with Some show ?thesis by (simp add: visit_unfold)
  next
    case (Inr occ)
    from candidate_occurrence_Inr [OF Inr] have to: "date_le today occ" by simp
    from toordinal_range [OF assms(1)] assms(2)
    have up: "toordinal today + days \<le> MAXORDINAL" by simp
    show ?thesis
    proof (cases "date_add today days")
      case e: (Inl e)
      with date_add_returns [of today days] up have "\<not> 0 < toordinal today + days" by auto
      with Some Inr to e show ?thesis by (simp add: visit_unfold)
    next
      case l: (Inr limit)
      with date_add_returns [of today days] have pos: "0 < toordinal today + days" by auto
      from not_in_window_negative [OF assms Inr] l to have "\<not> date_le occ limit"
        by (simp add: in_window_def)
      with Some Inr to l pos show ?thesis by (auto simp: visit_unfold)
    qed
  qed
qed

text \<open>
  C10, as amended. With a negative number of days (and \<open>today\<close> a date), \<open>upcoming\<close>
  never returns an entry: it returns the empty list exactly when the number of days is
  at least -999999999 and every record with a birthday has a candidate occurrence that
  exists and \<open>today + days\<close> is not before the first date; in every other case it
  raises.
\<close>

theorem negative_window_empty:
  assumes "valid_date today" and "days < 0"
  shows "upcoming data days today = Inr res \<longleftrightarrow>
     res = [] \<and> - 999999999 \<le> days \<and>
     (\<forall>(k, r) \<in> set data. \<forall>b. birthday r = Some b \<longrightarrow>
        (\<exists>occ. candidate_occurrence today (field_value b) = Inr occ) \<and>
        0 < toordinal today + days)"
proof -
  have none: "entries_of days today data = []"
    using visit_negative [OF assms]
    by (auto simp: entries_of_def split: sum.splits option.splits)
  have "(\<forall>(k, r) \<in> set data. \<exists>x. visit days today r = Inr x) \<longleftrightarrow>
     (\<forall>(k, r) \<in> set data. \<forall>b. birthday r = Some b \<longrightarrow>
        (\<exists>occ. candidate_occurrence today (field_value b) = Inr occ) \<and>
        0 < toordinal today + days)"
    by (simp add: visit_negative [OF assms])
  with none assms(2) show ?thesis
    by (auto simp: upcoming_Inr_iff)
qed

theorem negative_window_empty_witness:
  "valid_date (Date 2024 6 10) \<and> (- 7 :: int) < 0 \<and>
   upcoming [(''ann'', \<lparr>name = Name ''ann'', phones = [], birthday = Some (Field (Date 1990 6 10))\<rparr>),
             (''cy'', \<lparr>name = Name ''cy'', phones = [], birthday = None\<rparr>)]
     (- 7) (Date 2024 6 10) = Inr [] \<and>
   candidate_occurrence (Date 2024 6 10) (Date 1990 6 10) = Inr (Date 2024 6 10) \<and>
   0 < toordinal (Date 2024 6 10) + (- 7)"
proof -
  have v: "valid_date (Date 2024 6 10)"
    by (simp add: valid_date_def calendar_defs)
  have n: "(- 7 :: int) < 0" by simp
  have o: "candidate_occurrence (Date 2024 6 10) (Date 1990 6 10) = Inr (Date 2024 6 10)"
    by (simp add: upcoming_eval)
  have p: "0 < toordinal (Date 2024 6 10) + (- 7)"
    by (simp add: calendar_defs)
  from o p negative_window_empty [OF v n,
      of "[(''ann'', \<lparr>name = Name ''ann'', phones = [], birthday = Some (Field (Date 1990 6 10))\<rparr>),
           (''cy'', \<lparr>name = Name ''cy'', phones = [], birthday = None\<rparr>)]" "[]"]
  have "upcoming [(''ann'', \<lparr>name = Name ''ann'', phones = [], birthday = Some (Field (Date 1990 6 10))\<rparr>),
             (''cy'', \<lparr>name = Name ''cy'', phones = [], birthday = None\<rparr>)]
     (- 7) (Date 2024 6 10) = Inr []"
    by auto
  with v n o p show ?thesis by blast
qed

text \<open>
  C10 as stated fails: \<open>timedelta\<close> refuses -1000000000 days even for an empty book, and
  800000 days before 2024-06-10 there is no date.
\<close>

theorem negative_window_counterexample:
  "upcoming [] (- 1000000000) (Date 2024 6 10) = Inl OverflowError \<and>
   upcoming [(''ann'', \<lparr>name = Name ''ann'', phones = [], birthday = Some (Field (Date 1990 6 15))\<rparr>)]
     (- 800000) (Date 2024 6 10) = Inl OverflowError"
  by (simp add: upcoming_eval)


section \<open>Reading a birthday\<close>

lemma set_re_bind:
  "z \<in> set (re_bind ms f) \<longleftrightarrow> (\<exists>x r. (x, r) \<in> set ms \<and> z \<in> set (f x r))"
  by (induction ms) (auto simp: re_bind_def)

lemma set_re_range:
  "(x, r) \<in> set (re_range a b s) \<longleftrightarrow> (\<exists>c. s = c # r \<and> x = [c] \<and> a \<le> c \<and> c \<le> b)"
  by (cases s) (auto simp: re_range_def)

lemma set_re_lit: "(x, r) \<in> set (re_lit a s) \<longleftrightarrow> s = a # r \<and> x = [a]"
  by (auto simp: re_lit_def set_re_range)

lemma set_re_seq:
  "(x, r) \<in> set (re_seq p q s) \<longleftrightarrow>
     (\<exists>x1 r1 x2. (x1, r1) \<in> set (p s) \<and> (x2, r) \<in> set (q r1) \<and> x = x1 @ x2)"
  by (simp add: re_seq_def set_re_bind)

lemma set_re_alt: "set (re_alt p q s) = set (p s) \<union> set (q s)"
  by (simp add: re_alt_def)

lemma set_re_digit:
  "(x, r) \<in> set (re_digit s) \<longleftrightarrow> (\<exists>c. s = c # r \<and> x = [c] \<and> decimal_value c \<noteq> None)"
  by (cases s) (auto simp: re_digit_def)

lemma between:
  "(48 :: nat) \<le> c \<and> c \<le> 49 \<longleftrightarrow> c = 48 \<or> c = 49"
  "(49 :: nat) \<le> c \<and> c \<le> 50 \<longleftrightarrow> c = 49 \<or> c = 50"
  "(48 :: nat) \<le> c \<and> c \<le> 50 \<longleftrightarrow> c = 48 \<or> c = 49 \<or> c = 50"
  by arith+

lemma set_re_d: "(x, r) \<in> set (re_d s) \<longleftrightarrow> s = x @ r \<and> day_group x"
  unfolding re_d_def set_re_alt Un_iff set_re_seq set_re_lit set_re_digit set_re_range between
  by (auto simp: day_group_def split: list.splits)

lemma set_re_m: "(x, r) \<in> set (re_m s) \<longleftrightarrow> s = x @ r \<and> month_group x"
  unfolding re_m_def set_re_alt Un_iff set_re_seq set_re_lit set_re_digit set_re_range between
  by (auto simp: month_group_def split: list.splits)

lemma set_re_Y: "(x, r) \<in> set (re_Y s) \<longleftrightarrow> s = x @ r \<and> year_group x"
  unfolding re_Y_def set_re_seq set_re_digit
  by (auto simp: year_group_def length_Suc_conv eval_nat_numeral)

lemma set_format_regex_matches:
  "(d, m, y, r) \<in> set (format_regex_matches s) \<longleftrightarrow>
     s = d @ [46] @ m @ [46] @ y @ r \<and> day_group d \<and> month_group m \<and> year_group y"
  by (auto simp: format_regex_matches_def set_re_bind set_re_d set_re_m set_re_Y set_re_lit)

lemma find_SomeD: "find P xs = Some x \<Longrightarrow> P x \<and> x \<in> set xs"
  by (auto simp: find_Some_iff)

lemma decimal_zeros_ge: "z \<in> set decimal_zeros \<Longrightarrow> 48 \<le> z"
  by (auto simp: decimal_zeros_def)

lemma decimal_value_Some: "decimal_value c = Some k \<Longrightarrow> k < 10 \<and> 48 \<le> c"
  unfolding decimal_value_def by (auto dest!: find_SomeD decimal_zeros_ge)

lemma decimal_value_ascii: "48 \<le> c \<Longrightarrow> c \<le> 57 \<Longrightarrow> decimal_value c = Some (c - 48)"
  by (simp add: decimal_value_def decimal_zeros_def)

lemma decimal_value_low: "c < 48 \<Longrightarrow> decimal_value c = None"
  using decimal_value_Some [of c] by (cases "decimal_value c") auto

lemma group_no_dot:
  "day_group x \<Longrightarrow> 46 \<notin> set x" "month_group x \<Longrightarrow> 46 \<notin> set x"
  by (auto simp: day_group_def month_group_def decimal_value_low split: list.splits)

lemma split_at_dot:
  "x @ (46::nat) # r = x' @ 46 # r' \<Longrightarrow> 46 \<notin> set x \<Longrightarrow> 46 \<notin> set x' \<Longrightarrow> x = x' \<and> r = r'"
proof (induction x arbitrary: x')
  case Nil
  then show ?case by (cases x') auto
next
  case (Cons a x)
  then show ?case by (cases x') auto
qed

lemma matches_unique:
  assumes "g \<in> set (format_regex_matches s)" "g' \<in> set (format_regex_matches s)"
  shows "g = g'"
proof -
  obtain d m y r where g: "g = (d, m, y, r)" by (cases g)
  obtain d' m' y' r' where g': "g' = (d', m', y', r')" by (cases g')
  from assms g g' have s: "s = d @ 46 # (m @ 46 # (y @ r))"
    "s = d' @ 46 # (m' @ 46 # (y' @ r'))"
    and grp: "day_group d" "month_group m" "year_group y"
      "day_group d'" "month_group m'" "year_group y'"
    by (simp_all add: set_format_regex_matches)
  from s have "d @ 46 # (m @ 46 # (y @ r)) = d' @ 46 # (m' @ 46 # (y' @ r'))"
    by simp
  from split_at_dot [OF this] grp have d: "d = d'"
    and "m @ 46 # (y @ r) = m' @ 46 # (y' @ r')"
    by (simp_all add: group_no_dot)
  from split_at_dot [OF this(2)] grp have m: "m = m'" and "y @ r = y' @ r'"
    by (simp_all add: group_no_dot)
  moreover from grp have "length y = length y'" by (simp add: year_group_def)
  ultimately have "y = y'" "r = r'" by simp_all
  with d m g g' show ?thesis by simp
qed

lemma strptime_dmY_Inr:
  "strptime_dmY s = Inr dt \<longleftrightarrow>
     (\<exists>d m y. s = d @ [46] @ m @ [46] @ y \<and> day_group d \<and> month_group m \<and> year_group y \<and>
        check_date_fields (int_of_text y) (int_of_text m) (int_of_text d) = Inr dt)"
proof
  assume a: "strptime_dmY s = Inr dt"
  then obtain g t where l: "format_regex_matches s = g # t"
    by (cases "format_regex_matches s") (auto simp: strptime_dmY_def)
  obtain d m y r where g: "g = (d, m, y, r)" by (cases g)
  from a l g have r: "r = []"
    and c: "check_date_fields (int_of_text y) (int_of_text m) (int_of_text d) = Inr dt"
    by (auto simp: strptime_dmY_def split: if_splits)
  from l g have "(d, m, y, r) \<in> set (format_regex_matches s)" by simp
  with r c show "\<exists>d m y. s = d @ [46] @ m @ [46] @ y \<and> day_group d \<and> month_group m \<and>
      year_group y \<and> check_date_fields (int_of_text y) (int_of_text m) (int_of_text d) = Inr dt"
    by (auto simp: set_format_regex_matches)
next
  assume "\<exists>d m y. s = d @ [46] @ m @ [46] @ y \<and> day_group d \<and> month_group m \<and>
      year_group y \<and> check_date_fields (int_of_text y) (int_of_text m) (int_of_text d) = Inr dt"
  then obtain d m y where s: "s = d @ [46] @ m @ [46] @ y"
    and grp: "day_group d" "month_group m" "year_group y"
    and c: "check_date_fields (int_of_text y) (int_of_text m) (int_of_text d) = Inr dt"
    by blast
  from s grp have mem: "(d, m, y, []) \<in> set (format_regex_matches s)"
    by (simp add: set_format_regex_matches)
  then obtain g t where l: "format_regex_matches s = g # t"
    by (cases "format_regex_matches s") auto
  then have "g \<in> set (format_regex_matches s)" by simp
  from matches_unique [OF this mem] have "g = (d, m, y, [])" .
  with l c show "strptime_dmY s = Inr dt" by (simp add: strptime_dmY_def)
qed

lemma strptime_dmY_Inl: "strptime_dmY s = Inl e \<Longrightarrow> \<exists>msg. e = ValueError msg"
  by (auto simp: strptime_dmY_def check_date_fields_def split: list.splits if_splits)

lemma Birthday_Inr: "Birthday v = Inr f \<longleftrightarrow> (\<exists>dt. strptime_dmY v = Inr dt \<and> f = Field dt)"
  by (auto simp: Birthday_def split: sum.splits exn.splits)

lemma Birthday_Inl:
  "Birthday v = Inl e \<Longrightarrow> e = ValueError ''Invalid date format. Use DD.MM.YYYY''"
  by (auto simp: Birthday_def split: sum.splits exn.splits dest: strptime_dmY_Inl)

lemma digit_val_Some: "decimal_value c = Some k \<Longrightarrow> digit_val c = k"
  by (simp add: digit_val_def)

lemma digit_val_ascii: "48 \<le> c \<Longrightarrow> c \<le> 57 \<Longrightarrow> digit_val c = c - 48"
  by (simp add: digit_val_def decimal_value_ascii)

lemma decimal_value_not_blank: "decimal_value c = Some k \<Longrightarrow> c \<noteq> 32"
  by (auto dest: decimal_value_Some)

lemma int_of_text_digits:
  "decimal_value a = Some i \<Longrightarrow> int_of_text [a] = int i"
  "decimal_value a = Some i \<Longrightarrow> int_of_text [32, a] = int i"
  "decimal_value a = Some i \<Longrightarrow> decimal_value b = Some j \<Longrightarrow>
   int_of_text [a, b] = int (10 * i + j)"
  "decimal_value a = Some i \<Longrightarrow> decimal_value b = Some j \<Longrightarrow>
   decimal_value c = Some k \<Longrightarrow> decimal_value d = Some l \<Longrightarrow>
   int_of_text [a, b, c, d] = int (1000 * i + 100 * j + 10 * k + l)"
  by (simp_all add: int_of_text_def decimal_value_not_blank digit_val_Some)

lemma ascii_digit_value: "k < 10 \<Longrightarrow> decimal_value (ascii_digit k) = Some k"
  by (simp add: ascii_digit_def decimal_value_ascii)

lemma ascii_digit_range: "49 \<le> c \<and> c \<le> 57 \<longleftrightarrow> (\<exists>k. 1 \<le> k \<and> k < 10 \<and> c = ascii_digit k)"
  unfolding ascii_digit_def
proof
  assume "49 \<le> c \<and> c \<le> 57"
  then have "1 \<le> c - 48 \<and> c - 48 < 10 \<and> c = 48 + (c - 48)" by arith
  then show "\<exists>k. 1 \<le> k \<and> k < 10 \<and> c = 48 + k" ..
next
  assume "\<exists>k. 1 \<le> k \<and> k < 10 \<and> c = 48 + k"
  then show "49 \<le> c \<and> c \<le> 57" by auto
qed

lemma div_mod_digits: "b < 10 \<Longrightarrow> (10 * a + b) div 10 = (a::nat) \<and> (10 * a + b) mod 10 = b"
  by simp

lemma day_group_num:
  assumes "day_group x"
  shows "\<exists>n. 1 \<le> n \<and> n \<le> 31 \<and> int_of_text x = int n \<and> day_text n x"
proof -
  from assms consider
      k where "x = [ascii_digit k]" "1 \<le> k" "k < 10"
    | k where "x = [32, ascii_digit k]" "1 \<le> k" "k < 10"
    | k where "x = [48, ascii_digit k]" "1 \<le> k" "k < 10"
    | c where "x = [51, c]" "c = 48 \<or> c = 49"
    | a c k where "x = [ascii_digit a, c]" "a = 1 \<or> a = 2" "decimal_value c = Some k"
    unfolding day_group_def ascii_digit_range
    by (auto simp: ascii_digit_def split: list.splits)
  then show ?thesis
  proof cases
    case 1
    then show ?thesis
      by (intro exI [of _ k]) (simp add: int_of_text_digits ascii_digit_value day_text_def)
  next
    case 2
    then show ?thesis
      by (intro exI [of _ k]) (simp add: int_of_text_digits ascii_digit_value day_text_def)
  next
    case 3
    have z: "decimal_value 48 = Some 0" using decimal_value_ascii [of 48] by simp
    from 3 have "int_of_text x = int k"
      using int_of_text_digits(3) [OF z ascii_digit_value [of k]] by simp
    with 3 show ?thesis
      by (intro exI [of _ k]) (simp add: day_text_def ascii_digit_def)
  next
    case 4
    have z: "decimal_value 51 = Some 3" using decimal_value_ascii [of 51] by simp
    from 4(2) have v: "decimal_value c = Some (c - 48)" by (auto simp: decimal_value_ascii)
    from 4 have "int_of_text x = int (30 + (c - 48))"
      using int_of_text_digits(3) [OF z v] by simp
    with 4 show ?thesis
      by (intro exI [of _ "30 + (c - 48)"]) (auto simp: day_text_def ascii_digit_def)
  next
    case 5
    from 5(3) have k: "k < 10" by (auto dest: decimal_value_Some)
    from 5(2) have a: "a < 10" by auto
    from 5 have i: "int_of_text x = int (10 * a + k)"
      using int_of_text_digits(3) [OF ascii_digit_value [OF a] 5(3)] by simp
    from k 5(2) have b: "1 \<le> 10 * a + k" "10 * a + k \<le> 31" "10 \<le> 10 * a + k" "10 * a + k < 30"
      "10 * a + k < 100"
      by auto
    from b i 5(1,3) div_mod_digits [OF k, of a] show ?thesis
      by (intro exI [of _ "10 * a + k"]) (simp add: day_text_def)
  qed
qed

lemma month_group_num:
  assumes "month_group x"
  shows "\<exists>n. 1 \<le> n \<and> n \<le> 12 \<and> int_of_text x = int n \<and> month_text n x"
proof -
  from assms consider
      k where "x = [ascii_digit k]" "1 \<le> k" "k < 10"
    | k where "x = [48, ascii_digit k]" "1 \<le> k" "k < 10"
    | c where "x = [49, c]" "c = 48 \<or> c = 49 \<or> c = 50"
    unfolding month_group_def ascii_digit_range
    by (auto simp: ascii_digit_def split: list.splits)
  then show ?thesis
  proof cases
    case 1
    then show ?thesis
      by (intro exI [of _ k]) (simp add: int_of_text_digits ascii_digit_value month_text_def)
  next
    case 2
    have z: "decimal_value 48 = Some 0" using decimal_value_ascii [of 48] by simp
    from 2 have "int_of_text x = int k"
      using int_of_text_digits(3) [OF z ascii_digit_value [of k]] by simp
    with 2 show ?thesis
      by (intro exI [of _ k]) (simp add: month_text_def ascii_digit_def)
  next
    case 3
    have z: "decimal_value 49 = Some 1" using decimal_value_ascii [of 49] by simp
    from 3(2) have v: "decimal_value c = Some (c - 48)" by (auto simp: decimal_value_ascii)
    from 3 have "int_of_text x = int (10 + (c - 48))"
      using int_of_text_digits(3) [OF z v] by simp
    with 3 show ?thesis
      by (intro exI [of _ "10 + (c - 48)"]) (auto simp: month_text_def ascii_digit_def)
  qed
qed

lemma four_digit_parts:
  fixes a b c d :: nat
  assumes a: "a < 10" and b: "b < 10" and c: "c < 10" and d: "d < 10"
  shows "(1000 * a + 100 * b + 10 * c + d) div 1000 = a"
    "(1000 * a + 100 * b + 10 * c + d) div 100 mod 10 = b"
    "(1000 * a + 100 * b + 10 * c + d) div 10 mod 10 = c"
    "(1000 * a + 100 * b + 10 * c + d) mod 10 = d"
proof -
  let ?n = "1000 * a + 100 * b + 10 * c + d"
  show "?n div 1000 = a" using assms by linarith
  have "?n div 100 = 10 * a + b" using assms by linarith
  moreover have "(10 * a + b) mod 10 = b" using b by simp
  ultimately show "?n div 100 mod 10 = b" by simp
  have e: "100 * a + 10 * b + c = 10 * (10 * a + b) + c" by simp
  have "?n div 10 = 100 * a + 10 * b + c" using assms by linarith
  moreover have "(100 * a + 10 * b + c) mod 10 = c"
    unfolding e using c by (simp only: mod_mult_self4 mod_less)
  ultimately show "?n div 10 mod 10 = c" by simp
  have f: "?n = 10 * (100 * a + 10 * b + c) + d" by simp
  show "?n mod 10 = d" unfolding f using d by (simp only: mod_mult_self4 mod_less)
qed

lemma year_group_num:
  assumes "year_group x"
  shows "\<exists>n. n \<le> 9999 \<and> int_of_text x = int n \<and> year_text n x"
proof -
  from assms obtain c1 c2 c3 c4 a b c d where x: "x = [c1, c2, c3, c4]"
    and v: "decimal_value c1 = Some a" "decimal_value c2 = Some b"
      "decimal_value c3 = Some c" "decimal_value c4 = Some d"
    unfolding year_group_def
    by (auto simp: length_Suc_conv eval_nat_numeral)
  from v have k: "a < 10" "b < 10" "c < 10" "d < 10" by (auto dest: decimal_value_Some)
  from k have le: "1000 * a + 100 * b + 10 * c + d \<le> 9999" by linarith
  from x v have "year_text (1000 * a + 100 * b + 10 * c + d) x"
    by (simp only: year_text_def four_digit_parts [OF k] list.case)
  with x v le show ?thesis
    by (intro exI [of _ "1000 * a + 100 * b + 10 * c + d"]) (simp add: int_of_text_digits)
qed

lemma two_digits: "n < 100 \<Longrightarrow> \<exists>a b. a < 10 \<and> b < 10 \<and> n = 10 * a + (b::nat)"
  by (rule exI [of _ "n div 10"], rule exI [of _ "n mod 10"]) simp

lemma days_in_month_le_31: "1 \<le> m \<Longrightarrow> m \<le> 12 \<Longrightarrow> days_in_month y m \<le> 31"
  by (drule (1) month_cases, elim disjE) (simp_all add: days_in_month_def DAYS_IN_MONTH_def)

lemma day_text_group:
  assumes "1 \<le> d" "d \<le> 31" "day_text d x"
  shows "day_group x \<and> int_of_text x = int d"
proof -
  from assms(2) two_digits [of d] obtain a b where ab: "a < 10" "b < 10" "d = 10 * a + b" by auto
  from ab(2) have dm: "d div 10 = a" "d mod 10 = b" unfolding ab(3) by simp_all
  from ab assms(1,2) have r: "a = 3 \<and> (b = 0 \<or> b = 1) \<or> a = 1 \<or> a = 2 \<or> a = 0 \<and> 1 \<le> b"
    by arith
  from assms(3) consider
      "d < 10" "x = [ascii_digit d]"
    | "d < 10" "x = [32, ascii_digit d]"
    | c where "10 \<le> d" "d < 30" "x = [ascii_digit a, c]" "decimal_value c = Some b"
    | "\<not> (10 \<le> d \<and> d < 30)" "x = [ascii_digit a, ascii_digit b]"
    unfolding day_text_def dm by (auto split: list.splits if_splits)
  then show ?thesis
  proof cases
    case 1
    with assms(1) have "day_group x" by (simp add: day_group_def ascii_digit_def)
    with 1 show ?thesis by (simp add: int_of_text_digits ascii_digit_value)
  next
    case 2
    with assms(1) have "day_group x" by (simp add: day_group_def ascii_digit_def)
    with 2 show ?thesis by (simp add: int_of_text_digits ascii_digit_value)
  next
    case 3
    from 3(1,2) ab have "a = 1 \<or> a = 2" by arith
    with 3 have "day_group x" by (auto simp: day_group_def ascii_digit_def)
    moreover from 3 ab have "int_of_text x = int d"
      using int_of_text_digits(3) [OF ascii_digit_value [OF ab(1)] 3(4)] by simp
    ultimately show ?thesis ..
  next
    case 4
    from 4(1) ab r have "a = 3 \<and> (b = 0 \<or> b = 1) \<or> a = 0 \<and> 1 \<le> b" by arith
    with 4 ab have "day_group x" by (auto simp: day_group_def ascii_digit_def)
    moreover from 4 ab have "int_of_text x = int d"
      using int_of_text_digits(3) [OF ascii_digit_value [OF ab(1)] ascii_digit_value [OF ab(2)]]
      by simp
    ultimately show ?thesis ..
  qed
qed

lemma month_text_group:
  assumes "1 \<le> m" "m \<le> 12" "month_text m x"
  shows "month_group x \<and> int_of_text x = int m"
proof -
  from assms(2) two_digits [of m] obtain a b where ab: "a < 10" "b < 10" "m = 10 * a + b" by auto
  from ab(2) have dm: "m div 10 = a" "m mod 10 = b" unfolding ab(3) by simp_all
  from ab assms(1,2) have r: "a = 1 \<and> (b = 0 \<or> b = 1 \<or> b = 2) \<or> a = 0 \<and> 1 \<le> b"
    by arith
  from assms(3) consider
      "m < 10" "x = [ascii_digit m]"
    | "x = [ascii_digit a, ascii_digit b]"
    unfolding month_text_def dm by (auto split: list.splits if_splits)
  then show ?thesis
  proof cases
    case 1
    with assms(1) have "month_group x" by (simp add: month_group_def ascii_digit_def)
    with 1 show ?thesis by (simp add: int_of_text_digits ascii_digit_value)
  next
    case 2
    with r ab have "month_group x" by (auto simp: month_group_def ascii_digit_def)
    moreover from 2 ab have "int_of_text x = int m"
      using int_of_text_digits(3) [OF ascii_digit_value [OF ab(1)] ascii_digit_value [OF ab(2)]]
      by simp
    ultimately show ?thesis ..
  qed
qed

lemma four_digits_value:
  fixes y :: nat
  shows "1000 * (y div 1000) + 100 * (y div 100 mod 10) + 10 * (y div 10 mod 10) + y mod 10 = y"
proof -
  have a: "y div 100 = 10 * (y div 1000) + y div 100 mod 10"
    using div_mult_mod_eq [of "y div 100" 10] by (simp add: div_mult2_eq [symmetric])
  have b: "y div 10 = 10 * (y div 100) + y div 10 mod 10"
    using div_mult_mod_eq [of "y div 10" 10] by (simp add: div_mult2_eq [symmetric])
  have c: "y = 10 * (y div 10) + y mod 10" by simp
  from a b c show ?thesis by linarith
qed

lemma year_text_group:
  assumes "year_text y x"
  shows "year_group x \<and> int_of_text x = int y"
proof -
  from assms obtain c1 c2 c3 c4 where x: "x = [c1, c2, c3, c4]"
    and v: "decimal_value c1 = Some (y div 1000)" "decimal_value c2 = Some (y div 100 mod 10)"
      "decimal_value c3 = Some (y div 10 mod 10)" "decimal_value c4 = Some (y mod 10)"
    unfolding year_text_def by (auto split: list.splits)
  from x v have "year_group x" by (simp add: year_group_def)
  moreover from x have "int_of_text x = int y"
    unfolding x int_of_text_digits(4) [OF v] four_digits_value by simp
  ultimately show ?thesis ..
qed

text \<open>The definitions that running the parser on a given text unfolds.\<close>

lemmas parse_eval =
  Birthday_def strptime_dmY_def format_regex_matches_def re_bind_def re_d_def re_m_def re_Y_def
  re_alt_def re_seq_def re_lit_def re_range_def re_digit_def decimal_value_def decimal_zeros_def
  int_of_text_def digit_val_def utext_of_def check_date_fields_def MINYEAR_def MAXYEAR_def
  days_in_month_def DAYS_IN_MONTH_def is_leap_def

text \<open>
  C6, as amended. \<open>Birthday\<close> accepts a text exactly when it is a day, a dot, a month, a
  dot and a year, and the three numbers are a date of the calendar (of the years 1 to
  9999); the field then holds that date. The day is written with two of the digits \<open>0\<close>
  to \<open>9\<close>, or below ten also as one such digit or as a blank and one such digit; only the
  second digit of a day from 10 to 29 may be any decimal digit of Unicode, read by its
  value. The month is written with two of the digits \<open>0\<close> to \<open>9\<close>, or below ten as one
  such digit. The year is written with four decimal digits of Unicode, each read by its
  value. Every failure is the \<open>ValueError\<close> of the constructor. 29.02.2001 is refused and
  29.02.2000 is accepted.
\<close>

theorem Birthday_accepts_iff:
  "(Birthday v = Inr f \<longleftrightarrow>
      (\<exists>y m d ds ms ys. f = Field (Date (int y) (int m) (int d)) \<and>
         valid_date (Date (int y) (int m) (int d)) \<and>
         day_text d ds \<and> month_text m ms \<and> year_text y ys \<and>
         v = ds @ [46] @ ms @ [46] @ ys)) \<and>
   (\<forall>e. Birthday v = Inl e \<longrightarrow> e = ValueError ''Invalid date format. Use DD.MM.YYYY'') \<and>
   Birthday (utext_of ''29.02.2001'') = Inl (ValueError ''Invalid date format. Use DD.MM.YYYY'') \<and>
   Birthday (utext_of ''29.02.2000'') = Inr (Field (Date 2000 2 29))"
proof -
  have fwd: "\<exists>y m d ds ms ys. f = Field (Date (int y) (int m) (int d)) \<and>
         valid_date (Date (int y) (int m) (int d)) \<and>
         day_text d ds \<and> month_text m ms \<and> year_text y ys \<and>
         v = ds @ [46] @ ms @ [46] @ ys"
    if "Birthday v = Inr f"
  proof -
    from that obtain dt where "strptime_dmY v = Inr dt" and f: "f = Field dt"
      by (auto simp: Birthday_Inr)
    then obtain ds ms ys where v: "v = ds @ [46] @ ms @ [46] @ ys"
      and g: "day_group ds" "month_group ms" "year_group ys"
      and c: "check_date_fields (int_of_text ys) (int_of_text ms) (int_of_text ds) = Inr dt"
      by (auto simp: strptime_dmY_Inr)
    from day_group_num [OF g(1)] obtain d where d: "int_of_text ds = int d" "day_text d ds"
      by blast
    from month_group_num [OF g(2)] obtain m where m: "int_of_text ms = int m" "month_text m ms"
      by blast
    from year_group_num [OF g(3)] obtain y where y: "int_of_text ys = int y" "year_text y ys"
      by blast
    from c have "dt = Date (int y) (int m) (int d)" "valid_date (Date (int y) (int m) (int d))"
      unfolding d(1) m(1) y(1) check_date_fields_Inr by simp_all
    with f v d(2) m(2) y(2) show ?thesis by blast
  qed
  have bwd: "Birthday v = Inr f"
    if "\<exists>y m d ds ms ys. f = Field (Date (int y) (int m) (int d)) \<and>
         valid_date (Date (int y) (int m) (int d)) \<and>
         day_text d ds \<and> month_text m ms \<and> year_text y ys \<and>
         v = ds @ [46] @ ms @ [46] @ ys"
  proof -
    from that obtain y m d ds ms ys where f: "f = Field (Date (int y) (int m) (int d))"
      and val: "valid_date (Date (int y) (int m) (int d))"
      and ds: "day_text d ds" and ms: "month_text m ms" and ys: "year_text y ys"
      and v: "v = ds @ [46] @ ms @ [46] @ ys"
      by blast
    from val have m12: "1 \<le> m" "m \<le> 12"
      and d1: "1 \<le> d" and dd: "int d \<le> days_in_month (int y) (int m)"
      by (simp_all add: valid_date_def)
    from m12 have "days_in_month (int y) (int m) \<le> 31"
      by (intro days_in_month_le_31) simp_all
    with dd have d31: "d \<le> 31" by simp
    from day_text_group [OF d1 d31 ds] have gd: "day_group ds" "int_of_text ds = int d"
      by simp_all
    from month_text_group [OF m12 ms] have gm: "month_group ms" "int_of_text ms = int m"
      by simp_all
    from year_text_group [OF ys] have gy: "year_group ys" "int_of_text ys = int y"
      by simp_all
    have "check_date_fields (int_of_text ys) (int_of_text ms) (int_of_text ds)
        = Inr (Date (int y) (int m) (int d))"
      unfolding gd(2) gm(2) gy(2) check_date_fields_Inr using val by simp
    with v gd(1) gm(1) gy(1) have "strptime_dmY v = Inr (Date (int y) (int m) (int d))"
      unfolding strptime_dmY_Inr by blast
    with f show ?thesis by (simp add: Birthday_Inr)
  qed
  have err: "\<forall>e. Birthday v = Inl e \<longrightarrow> e = ValueError ''Invalid date format. Use DD.MM.YYYY''"
    by (auto dest: Birthday_Inl)
  have e1: "Birthday (utext_of ''29.02.2001'') = Inl (ValueError ''Invalid date format. Use DD.MM.YYYY'')"
    by (simp add: parse_eval)
  have e2: "Birthday (utext_of ''29.02.2000'') = Inr (Field (Date 2000 2 29))"
    by (simp add: parse_eval)
  from fwd bwd err e1 e2 show ?thesis by blast
qed

text \<open>
  The day 10 written with an Arabic-Indic zero (code point 1632) and the year 1991 with
  Arabic-Indic digits are accepted; the day 24 written with fullwidth digits (code points
  65298 and 65300) is refused.
\<close>

theorem Birthday_accepts_iff_witness:
  "valid_date (Date (int 1991) (int 8) (int 10)) \<and>
   day_text 10 [49, 1632] \<and> month_text 8 [48, 56] \<and> year_text 1991 [1633, 1641, 1641, 1633] \<and>
   Birthday ([49, 1632] @ [46] @ [48, 56] @ [46] @ [1633, 1641, 1641, 1633])
     = Inr (Field (Date 1991 8 10)) \<and>
   Birthday [65298, 65300, 46, 48, 56, 46, 49, 57, 57, 49]
     = Inl (ValueError ''Invalid date format. Use DD.MM.YYYY'')"
proof -
  have v: "valid_date (Date (int 1991) (int 8) (int 10))"
    by (simp add: valid_date_def MINYEAR_def MAXYEAR_def days_in_month_def DAYS_IN_MONTH_def)
  have d: "day_text 10 [49, 1632]"
    by (simp add: day_text_def ascii_digit_def decimal_value_def decimal_zeros_def)
  have m: "month_text 8 [48, 56]" by (simp add: month_text_def ascii_digit_def)
  have y: "year_text 1991 [1633, 1641, 1641, 1633]"
    by (simp add: year_text_def decimal_value_def decimal_zeros_def)
  from v d m y
    Birthday_accepts_iff [of "[49, 1632] @ [46] @ [48, 56] @ [46] @ [1633, 1641, 1641, 1633]"
      "Field (Date (int 1991) (int 8) (int 10))"]
  have "Birthday ([49, 1632] @ [46] @ [48, 56] @ [46] @ [1633, 1641, 1641, 1633])
      = Inr (Field (Date (int 1991) (int 8) (int 10)))"
    by blast
  then have a: "Birthday ([49, 1632] @ [46] @ [48, 56] @ [46] @ [1633, 1641, 1641, 1633])
      = Inr (Field (Date 1991 8 10))"
    by simp
  have "isl (Birthday [65298, 65300, 46, 48, 56, 46, 49, 57, 57, 49])"
    by (simp add: parse_eval)
  then obtain e where e: "Birthday [65298, 65300, 46, 48, 56, 46, 49, 57, 57, 49] = Inl e"
    by (cases "Birthday [65298, 65300, 46, 48, 56, 46, 49, 57, 57, 49]") auto
  with Birthday_accepts_iff [of "[65298, 65300, 46, 48, 56, 46, 49, 57, 57, 49]"]
  have "e = ValueError ''Invalid date format. Use DD.MM.YYYY''" by blast
  with e v d m y a show ?thesis by blast
qed

text \<open>
  C6 as stated fails: the text 1.2.2000 has neither a two-digit day nor a two-digit
  month, and \<open>Birthday\<close> accepts it.
\<close>

theorem Birthday_single_digit_counterexample:
  "Birthday (utext_of ''1.2.2000'') = Inr (Field (Date 2000 2 1)) \<and>
   \<not> fixed_pattern (utext_of ''1.2.2000'')"
  by (simp add: parse_eval fixed_pattern_def)


section \<open>Failing as a whole\<close>

lemma weekend_room:
  fixes n :: int
  assumes "n \<le> 3652059"
  shows "(n + 6) mod 7 = 5 \<Longrightarrow> n + 2 \<le> 3652059" and "(n + 6) mod 7 = 6 \<Longrightarrow> n + 1 \<le> 3652059"
  using assms by presburger+

lemma reported_ok:
  assumes "valid_date occ"
  shows "\<exists>d. reported occ = Inr d"
proof -
  from toordinal_range [OF assms] have r: "1 \<le> toordinal occ" "toordinal occ \<le> 3652059"
    by (simp_all add: MAXORDINAL_def)
  show ?thesis
  proof (cases "weekday occ = 5")
    case True
    with weekend_room(1) [OF r(2)] have "toordinal occ + 2 \<le> MAXORDINAL"
      by (simp add: weekday_def MAXORDINAL_def)
    with r True show ?thesis using date_add_returns [of occ 2] by (simp add: reported_def)
  next
    case n5: False
    show ?thesis
    proof (cases "weekday occ = 6")
      case True
      with weekend_room(2) [OF r(2)] have "toordinal occ + 1 \<le> MAXORDINAL"
        by (simp add: weekday_def MAXORDINAL_def)
      with r True n5 show ?thesis using date_add_returns [of occ 1] by (simp add: reported_def)
    next
      case False
      with n5 show ?thesis by (simp add: reported_def)
    qed
  qed
qed

lemma candidate_occurrence_Inl: "candidate_occurrence today b = Inl e \<Longrightarrow> \<exists>m. e = ValueError m"
  by (auto simp: candidate_occurrence_def check_date_fields_def split: sum.splits if_splits)

lemma visit_Inl:
  assumes "visit p today r = Inl e"
  shows "(\<exists>m. e = ValueError m) \<or> (e = OverflowError \<and> (\<forall>limit. date_add today p \<noteq> Inr limit))"
proof -
  from assms obtain b where b: "birthday r = Some b"
    by (cases "birthday r") (auto simp: visit_unfold)
  show ?thesis
  proof (cases "candidate_occurrence today (field_value b)")
    case (Inl e')
    with assms b have "e = e'" by (simp add: visit_unfold)
    with candidate_occurrence_Inl [OF Inl] show ?thesis by simp
  next
    case (Inr occ)
    from candidate_occurrence_Inr [OF Inr] have v: "valid_date occ" and le: "date_le today occ"
      by simp_all
    from reported_ok [OF v] obtain d where d: "reported occ = Inr d" ..
    show ?thesis
    proof (cases "date_add today p")
      case l: (Inl e')
      with assms b Inr le have "e = e'" by (simp add: visit_unfold)
      with date_add_Inl [OF l] l show ?thesis by simp
    next
      case (Inr limit)
      with assms b \<open>candidate_occurrence today (field_value b) = Inr occ\<close> le d
      show ?thesis by (simp add: visit_unfold split: if_splits)
    qed
  qed
qed

lemma visit_all_Inl_source:
  "visit_all p today data acc = Inl e \<Longrightarrow> \<exists>(k, r) \<in> set data. visit p today r = Inl e"
proof (induction data arbitrary: acc)
  case Nil
  then show ?case by simp
next
  case (Cons kr data)
  obtain k r where kr: "kr = (k, r)" by (cases kr)
  show ?case
  proof (cases "visit p today r")
    case (Inl e')
    with Cons.prems kr show ?thesis by simp
  next
    case (Inr x)
    with Cons.prems kr have "\<exists>acc'. visit_all p today data acc' = Inl e"
      by (cases x) auto
    with Cons.IH kr show ?thesis by auto
  qed
qed

text \<open>When \<open>upcoming\<close> returns, and what it raises otherwise.\<close>

lemma upcoming_returns_iff:
  "(\<exists>res. upcoming data days today = Inr res) \<longleftrightarrow>
     \<bar>days\<bar> \<le> 999999999 \<and>
     (\<forall>(k, r) \<in> set data. \<forall>b. birthday r = Some b \<longrightarrow>
        (\<exists>occ. candidate_occurrence today (field_value b) = Inr occ) \<and>
        (\<exists>limit. date_add today days = Inr limit))"
proof -
  have "(\<exists>x. visit days today r = Inr x) \<longleftrightarrow>
      (\<forall>b. birthday r = Some b \<longrightarrow>
        (\<exists>occ. candidate_occurrence today (field_value b) = Inr occ) \<and>
        (\<exists>limit. date_add today days = Inr limit))" for r
  proof (cases "birthday r")
    case None
    then show ?thesis by (simp add: visit_unfold)
  next
    case (Some b)
    show ?thesis
    proof (cases "candidate_occurrence today (field_value b)")
      case (Inl e)
      with Some show ?thesis by (simp add: visit_unfold)
    next
      case (Inr occ)
      from candidate_occurrence_Inr [OF Inr] have v: "valid_date occ" and le: "date_le today occ"
        by simp_all
      from reported_ok [OF v] obtain d where d: "reported occ = Inr d" ..
      from Some Inr le d show ?thesis
        by (cases "date_add today days") (simp_all add: visit_unfold)
    qed
  qed
  then show ?thesis by (auto simp: upcoming_Inr_iff)
qed

lemma upcoming_Inl:
  assumes "upcoming data days today = Inl e"
  shows "(\<exists>m. e = ValueError m) \<or> e = OverflowError"
proof (cases "timedelta days")
  case (Inl e')
  with assms show ?thesis by (auto simp: upcoming_def timedelta_def split: if_splits)
next
  case (Inr p)
  with assms have "visit_all p today data [] = Inl e" by (simp add: upcoming_def)
  from visit_all_Inl_source [OF this] visit_Inl show ?thesis by blast
qed

lemma not_leap_next: "is_leap y \<Longrightarrow> \<not> is_leap (y + 1)"
proof -
  assume "is_leap y"
  then have "y mod 4 = 0" by (auto simp: is_leap_def)
  then have "(y + 1) mod 4 = 1" by presburger
  then show "\<not> is_leap (y + 1)" by (simp add: is_leap_def)
qed

lemma check_feb29:
  "MINYEAR \<le> y \<Longrightarrow> y \<le> MAXYEAR \<Longrightarrow> is_leap y \<Longrightarrow> check_date_fields y 2 29 = Inr (Date y 2 29)"
  "\<not> is_leap y \<Longrightarrow> \<exists>e. check_date_fields y 2 29 = Inl e"
  by (simp_all add: check_date_fields_def days_in_month_def DAYS_IN_MONTH_def)

text \<open>
  The candidate occurrence of a birthday on 29 February exists exactly when the year
  \<open>candidate_year_feb29\<close> is a leap year, and is then 29 February of that year.
\<close>

lemma candidate_occurrence_feb29:
  assumes "month b = 2" "day b = 29" "MINYEAR \<le> year today" "year today \<le> MAXYEAR"
  shows "candidate_occurrence today b = Inr d \<longleftrightarrow>
         is_leap (candidate_year_feb29 today) \<and> d = Date (candidate_year_feb29 today) 2 29"
proof (cases "is_leap (year today)")
  case False
  from check_feb29(2) [OF this] obtain e where "check_date_fields (year today) 2 29 = Inl e" ..
  with False assms(1,2) show ?thesis
    by (simp add: candidate_occurrence_def candidate_year_feb29_def)
next
  case True
  from check_feb29(1) [OF assms(3,4) True]
  have c: "check_date_fields (year today) 2 29 = Inr (Date (year today) 2 29)" .
  show ?thesis
  proof (cases "date_lt (Date (year today) 2 29) today")
    case lt: True
    from check_feb29(2) [OF not_leap_next [OF True]]
    obtain e where "check_date_fields (year today + 1) 2 29 = Inl e" ..
    with True lt c assms(1,2) not_leap_next [OF True] show ?thesis
      by (simp add: candidate_occurrence_def candidate_year_feb29_def)
  next
    case False
    with True c assms(1,2) show ?thesis
      by (auto simp: candidate_occurrence_def candidate_year_feb29_def)
  qed
qed

lemma candidate_occurrence_feb29_Inl:
  assumes "month b = 2" "day b = 29" "\<not> is_leap (candidate_year_feb29 today)"
  shows "\<exists>e. candidate_occurrence today b = Inl e"
proof (cases "is_leap (year today)")
  case False
  from check_feb29(2) [OF this] show ?thesis
    using assms(1,2) by (auto simp: candidate_occurrence_def)
next
  case True
  with assms(3) have lt: "date_lt (Date (year today) 2 29) today"
    and nl: "\<not> is_leap (year today + 1)"
    by (auto simp: candidate_year_feb29_def split: if_splits)
  from check_feb29(2) [OF nl] obtain e where e: "check_date_fields (year today + 1) 2 29 = Inl e" ..
  show ?thesis
  proof (cases "check_date_fields (year today) 2 29")
    case (Inl e')
    then show ?thesis using assms(1,2) by (simp add: candidate_occurrence_def)
  next
    case (Inr d)
    then have "d = Date (year today) 2 29" by (simp add: check_date_fields_Inr)
    with Inr lt e show ?thesis using assms(1,2) by (simp add: candidate_occurrence_def)
  qed
qed

text \<open>
  C3, as amended. When the book holds a record whose birthday is 29 February and the
  candidate year is not a leap year, \<open>upcoming\<close> does not skip the record: the call as a
  whole ends in an exception, with no result for the other records. The candidate year is
  the year of \<open>today\<close>, or the year after it when 29 February of the year of \<open>today\<close>
  exists and is before \<open>today\<close>. The exception is the \<open>ValueError\<close> of the date
  constructor whenever the window itself can be computed.
\<close>

theorem feb29_fails_whole:
  assumes "(k, r) \<in> set data" and "birthday r = Some b"
    and "month (field_value b) = 2" and "day (field_value b) = 29"
    and "\<not> is_leap (candidate_year_feb29 today)"
  shows "(\<exists>e. upcoming data days today = Inl e) \<and>
         (\<bar>days\<bar> \<le> 999999999 \<and> (\<exists>limit. date_add today days = Inr limit) \<longrightarrow>
            is_ValueError (upcoming data days today))"
proof -
  from candidate_occurrence_feb29_Inl [OF assms(3,4,5)]
  have "\<exists>e. candidate_occurrence today (field_value b) = Inl e" .
  then obtain e where "visit days today r = Inl e"
    using assms(2) by (auto simp: visit_unfold)
  from visit_all_Inl [OF assms(1) this, of "[]"]
  have "\<exists>e'. upcoming data days today = Inl e'"
    by (auto simp: upcoming_def timedelta_def)
  then obtain e' where fails: "upcoming data days today = Inl e'" ..
  have "is_ValueError (upcoming data days today)"
    if d: "\<bar>days\<bar> \<le> 999999999" and l: "\<exists>limit. date_add today days = Inr limit"
  proof -
    from fails d have "visit_all days today data [] = Inl e'"
      by (simp add: upcoming_def timedelta_def)
    from visit_all_Inl_source [OF this] obtain k' r' where "visit days today r' = Inl e'"
      by blast
    from visit_Inl [OF this] l have "\<exists>m. e' = ValueError m" by blast
    with fails show ?thesis by (auto simp: is_ValueError_def)
  qed
  with fails show ?thesis by blast
qed

text \<open>
  On 10 June 2023 the candidate year is 2023, and on 10 June 2024 it is 2025: the call
  fails on both days.
\<close>

theorem feb29_fails_whole_witness:
  "(''bob'', \<lparr>name = Name ''bob'', phones = [], birthday = Some (Field (Date 2000 2 29))\<rparr>)
     \<in> set [(''ann'', \<lparr>name = Name ''ann'', phones = [], birthday = Some (Field (Date 1990 6 12))\<rparr>),
             (''bob'', \<lparr>name = Name ''bob'', phones = [], birthday = Some (Field (Date 2000 2 29))\<rparr>)] \<and>
   candidate_year_feb29 (Date 2023 6 10) = 2023 \<and> \<not> is_leap 2023 \<and>
   candidate_year_feb29 (Date 2024 6 10) = 2025 \<and> \<not> is_leap 2025 \<and>
   date_add (Date 2023 6 10) 7 = Inr (Date 2023 6 17) \<and>
   date_add (Date 2024 6 10) 7 = Inr (Date 2024 6 17) \<and>
   is_ValueError
     (upcoming
        [(''ann'', \<lparr>name = Name ''ann'', phones = [], birthday = Some (Field (Date 1990 6 12))\<rparr>),
         (''bob'', \<lparr>name = Name ''bob'', phones = [], birthday = Some (Field (Date 2000 2 29))\<rparr>)]
        7 (Date 2023 6 10)) \<and>
   is_ValueError
     (upcoming
        [(''ann'', \<lparr>name = Name ''ann'', phones = [], birthday = Some (Field (Date 1990 6 12))\<rparr>),
         (''bob'', \<lparr>name = Name ''bob'', phones = [], birthday = Some (Field (Date 2000 2 29))\<rparr>)]
        7 (Date 2024 6 10))"
proof -
  let ?ann = "\<lparr>name = Name ''ann'', phones = [], birthday = Some (Field (Date 1990 6 12))\<rparr>"
  let ?bob = "\<lparr>name = Name ''bob'', phones = [], birthday = Some (Field (Date 2000 2 29))\<rparr>"
  have m: "(''bob'', ?bob) \<in> set [(''ann'', ?ann), (''bob'', ?bob)]" by simp
  have b: "birthday ?bob = Some (Field (Date 2000 2 29))" by simp
  have l: "\<not> is_leap 2023" "is_leap 2024" "\<not> is_leap 2025" by (simp_all add: is_leap_def)
  have y: "candidate_year_feb29 (Date 2023 6 10) = 2023"
    "candidate_year_feb29 (Date 2024 6 10) = 2025"
    using l by (simp_all add: candidate_year_feb29_def date_lt_def)
  from l y have n: "\<not> is_leap (candidate_year_feb29 (Date 2023 6 10))"
    "\<not> is_leap (candidate_year_feb29 (Date 2024 6 10))" by simp_all
  have w: "date_add (Date 2023 6 10) 7 = Inr (Date 2023 6 17)"
    "date_add (Date 2024 6 10) 7 = Inr (Date 2024 6 17)"
    by (simp_all add: calendar_defs Let_def)
  from feb29_fails_whole [OF m b _ _ n(1), of 7] w(1)
  have u: "is_ValueError (upcoming [(''ann'', ?ann), (''bob'', ?bob)] 7 (Date 2023 6 10))" by simp
  from feb29_fails_whole [OF m b _ _ n(2), of 7] w(2)
  have u': "is_ValueError (upcoming [(''ann'', ?ann), (''bob'', ?bob)] 7 (Date 2024 6 10))" by simp
  from m y l w u u' show ?thesis by blast
qed

text \<open>
  C3 as stated fails: in 2023, a book with a 29 February birthday gives no result
  sequence at all, not even for the contact visited before.
\<close>

theorem feb29_skipped_counterexample:
  "\<not> is_leap 2023 \<and>
   is_ValueError
     (upcoming [(''ann'', \<lparr>name = Name ''ann'', phones = [], birthday = Some (Field (Date 1990 2 27))\<rparr>),
                (''bob'', \<lparr>name = Name ''bob'', phones = [], birthday = Some (Field (Date 2000 2 29))\<rparr>)]
        7 (Date 2023 2 25))"
  by (simp add: upcoming_eval is_ValueError_def)

end
